theory Spec2Isabelle
  imports Main "HOL-Library.AList" "HOL-Library.Sublist" "HOL-Library.Multiset"
begin

section \<open>The crossword solver of \<open>crossword/generate.py\<close>\<close>

text \<open>
  The development embeds the class \<open>CrosswordCreator\<close>: node consistency, \<open>revise\<close>,
  \<open>ac3\<close>, the predicates on assignments, the two ordering heuristics, \<open>backtrack\<close>
  and \<open>solve\<close>.

  Conventions of the embedding.
  \<^item> A Python \<open>set\<close> is a list; the order of the list is the order in which the set is
    iterated. A set that the code builds by \<open>add\<close> is iterated in insertion order.
  \<^item> \<open>set.pop()\<close> removes an arbitrary element: the worklist of \<open>ac3\<close> takes a
    policy \<open>pick\<close> that chooses the position to pop from the current worklist and
    domains, and every theorem about \<open>ac3\<close> holds for every policy.
  \<^item> The dictionary \<open>self.domains\<close> is a map from slots to word lists; an assignment is
    an association list in insertion order, as a Python \<open>dict\<close> is.
  \<^item> Every exception the code can raise is a value \<open>Inl e\<close> of the result.
  \<^item> Methods that mutate \<open>self.domains\<close> or the assignment return the new value.
\<close>

subsection \<open>Data\<close>

datatype error = KeyError | TypeError | IndexError

datatype direction = ACROSS | DOWN

text \<open>
  Modelled from the spec: the class \<open>Variable\<close> is declared in \<open>crossword.py\<close>, which is
  not among the sources. A slot is identified by starting row, starting column, direction
  and length, and two slots are equal iff all four fields match.
\<close>

datatype variable =
  Variable (var_i: nat) (var_j: nat) (var_direction: direction) (var_length: nat)

text \<open>
  Modelled from the spec: the class \<open>Crossword\<close> is declared in \<open>crossword.py\<close>. The
  solver reads its set of slots, its vocabulary and its overlap table; the table maps a
  pair of slots to \<open>None\<close> or to a pair of offsets.
\<close>

record crossword =
  variables :: "variable list"
  words :: "string list"
  overlaps :: "variable \<times> variable \<Rightarrow> (nat \<times> nat) option"

type_synonym domains = "variable \<rightharpoonup> string list"

type_synonym assignment = "(variable \<times> string) list"

type_synonym arc = "variable \<times> variable"

text \<open>
  Modelled from the spec: the overlap table is keyed by the pairs of distinct slots of the
  puzzle, so \<open>self.crossword.overlaps[x, y]\<close> raises \<open>KeyError\<close> for any other pair.
\<close>

definition overlaps_get :: "crossword \<Rightarrow> variable \<Rightarrow> variable \<Rightarrow> error + (nat \<times> nat) option" where
  "overlaps_get c x y =
     (if x \<in> set (variables c) \<and> y \<in> set (variables c) \<and> x \<noteq> y
      then Inr (overlaps c (x, y)) else Inl KeyError)"

text \<open>
  Modelled from the spec: \<open>Crossword.neighbors\<close> is declared in \<open>crossword.py\<close>. Two slots
  are neighbors iff their overlap table entry is not \<open>None\<close>; the neighbors of a slot are
  the other slots of the puzzle overlapping it.
\<close>

definition neighbors :: "crossword \<Rightarrow> variable \<Rightarrow> variable list" where
  "neighbors c var = filter (\<lambda>v. v \<noteq> var \<and> overlaps c (v, var) \<noteq> None) (variables c)"

text \<open>
  What the puzzle model guarantees to the solver: the slots are listed once each, the
  overlap table is symmetric, and an offset lies inside its slot.
\<close>

definition wf_crossword :: "crossword \<Rightarrow> bool" where
  "wf_crossword c =
     (distinct (variables c) \<and>
      list_all (\<lambda>x. list_all (\<lambda>y.
          (case overlaps c (x, y) of
             None \<Rightarrow> overlaps c (y, x) = None
           | Some (i, j) \<Rightarrow> overlaps c (y, x) = Some (j, i) \<and> i < var_length x \<and> j < var_length y))
        (variables c)) (variables c))"

subsection \<open>The domain store and node consistency\<close>

text \<open>\<open>__init__\<close>: every slot starts with a copy of the vocabulary.\<close>

definition init_domains :: "crossword \<Rightarrow> domains" where
  "init_domains c = (\<lambda>var. if var \<in> set (variables c) then Some (words c) else None)"

text \<open>\<open>enforce_node_consistency\<close>: remove every word whose length is not the slot's.\<close>

definition enforce_node_consistency :: "domains \<Rightarrow> domains" where
  "enforce_node_consistency d =
     (\<lambda>key. case d key of
        None \<Rightarrow> None
      | Some value \<Rightarrow> Some (filter (\<lambda>word. length word = var_length key) value))"

subsection \<open>\<open>revise\<close>\<close>

text \<open>
  The inner loop of \<open>revise\<close> over \<open>self.domains[y]\<close>: \<open>Inr True\<close> when it leaves by
  \<open>break\<close> after adding \<open>wordX\<close>, \<open>Inr False\<close> when it runs to its end, \<open>IndexError\<close>
  when \<open>wordX[i]\<close> or \<open>wordY[j]\<close> is out of range.
\<close>

fun has_support :: "nat \<Rightarrow> nat \<Rightarrow> string \<Rightarrow> string list \<Rightarrow> error + bool" where
  "has_support i j wordX [] = Inr False"
| "has_support i j wordX (wordY # rest) =
     (if i < length wordX \<and> j < length wordY
      then (if wordX ! i = wordY ! j then Inr True else has_support i j wordX rest)
      else Inl IndexError)"

text \<open>
  The outer loop over \<open>self.domains[x]\<close>, collecting \<open>valid_words\<close>; \<open>self.domains[y]\<close>
  is looked up once per iteration, as in the source.
\<close>

fun valid_words_loop :: "domains \<Rightarrow> variable \<Rightarrow> nat \<Rightarrow> nat \<Rightarrow> string list \<Rightarrow> error + string list" where
  "valid_words_loop d y i j [] = Inr []"
| "valid_words_loop d y i j (wordX # rest) =
     (case d y of
        None \<Rightarrow> Inl KeyError
      | Some dy \<Rightarrow>
          (case has_support i j wordX dy of
             Inl e \<Rightarrow> Inl e
           | Inr found \<Rightarrow>
               (case valid_words_loop d y i j rest of
                  Inl e \<Rightarrow> Inl e
                | Inr valid_words \<Rightarrow> Inr (if found then wordX # valid_words else valid_words))))"

text \<open>
  \<open>revise\<close> reads \<open>overlap[0]\<close> and \<open>overlap[1]\<close> before it tests \<open>overlap\<close>, so an entry
  \<open>None\<close> raises \<open>TypeError\<close>; a pair of offsets is always true as a condition.
\<close>

definition revise :: "crossword \<Rightarrow> domains \<Rightarrow> variable \<Rightarrow> variable \<Rightarrow> error + (bool \<times> domains)" where
  "revise c d x y =
     (case overlaps_get c x y of
        Inl e \<Rightarrow> Inl e
      | Inr None \<Rightarrow> Inl TypeError
      | Inr (Some (i, j)) \<Rightarrow>
          (case d x of
             None \<Rightarrow> Inl KeyError
           | Some dx \<Rightarrow>
               (case valid_words_loop d y i j dx of
                  Inl e \<Rightarrow> Inl e
                | Inr valid_words \<Rightarrow>
                    if set valid_words = set dx then Inr (False, d)
                    else Inr (True, d(x \<mapsto> valid_words)))))"

subsection \<open>\<open>ac3\<close>\<close>

text \<open>\<open>arcs.add\<close> on the worklist: a pair already pending is not added again.\<close>

definition add_arc :: "arc \<Rightarrow> arc list \<Rightarrow> arc list" where
  "add_arc a arcs = (if a \<in> set arcs then arcs else arcs @ [a])"

text \<open>The seeding for \<open>arcs == None\<close>: every slot paired with each of its neighbors.\<close>

definition all_arcs :: "crossword \<Rightarrow> arc list" where
  "all_arcs c =
     fold add_arc
       (concat (map (\<lambda>variable. map (Pair variable) (neighbors c variable)) (variables c))) []"

text \<open>After a revision of \<open>X\<close>: both \<open>(X, Z)\<close> and \<open>(Z, X)\<close> for every neighbor \<open>Z\<close>.\<close>

definition requeue :: "crossword \<Rightarrow> variable \<Rightarrow> arc list \<Rightarrow> arc list" where
  "requeue c X arcs = fold (\<lambda>Z arcs. add_arc (Z, X) (add_arc (X, Z) arcs)) (neighbors c X) arcs"

text \<open>
  The choice of \<open>arcs.pop()\<close>: from the pending arcs and the current domains, a position
  in the worklist (taken modulo its length).
\<close>

type_synonym policy = "arc list \<Rightarrow> domains \<Rightarrow> nat"

text \<open>The total size of the domains of the puzzle's slots, which bounds the revisions.\<close>

definition domain_size :: "crossword \<Rightarrow> domains \<Rightarrow> nat" where
  "domain_size c d =
     sum_list (map (\<lambda>v. case d v of None \<Rightarrow> 0 | Some ws \<Rightarrow> length ws) (variables c))"

lemma valid_words_loop_filter:
  "valid_words_loop d y i j dx = Inr vs \<Longrightarrow>
   vs = filter (\<lambda>w. \<exists>dy. d y = Some dy \<and> has_support i j w dy = Inr True) dx"
  by (induction dx arbitrary: vs) (auto split: option.splits sum.splits if_splits)

lemma filter_strict_length:
  "set (filter P xs) \<noteq> set xs \<Longrightarrow> length (filter P xs) < length xs"
proof -
  assume "set (filter P xs) \<noteq> set xs"
  then obtain x where "x \<in> set xs" "\<not> P x" by auto
  then show ?thesis by (rule length_filter_less)
qed

lemma revise_True:
  assumes "revise c d x y = Inr (True, d1)"
  shows "x \<in> set (variables c) \<and>
         (\<exists>dx vs. d x = Some dx \<and> d1 = d(x \<mapsto> vs) \<and> length vs < length dx \<and> set vs \<subseteq> set dx)"
proof -
  from assms obtain i j dx vs where
    x: "x \<in> set (variables c)" and dx: "d x = Some dx"
    and vs: "valid_words_loop d y i j dx = Inr vs"
    and ne: "set vs \<noteq> set dx" and d1: "d1 = d(x \<mapsto> vs)"
    by (auto simp: revise_def overlaps_get_def split: sum.splits option.splits if_splits)
  from valid_words_loop_filter[OF vs] obtain P where P: "vs = filter P dx" by blast
  have "length vs < length dx" using ne filter_strict_length[of P dx] P by simp
  moreover have "set vs \<subseteq> set dx" using P by auto
  ultimately show ?thesis using x dx d1 by blast
qed

lemma revise_False: "revise c d x y = Inr (False, d1) \<Longrightarrow> d1 = d"
  by (auto simp: revise_def split: sum.splits option.splits if_splits)

lemma sum_list_map_strict:
  fixes f g :: "'a \<Rightarrow> nat"
  assumes "x \<in> set xs" "\<And>y. g y \<le> f y" "g x < f x"
  shows "sum_list (map g xs) < sum_list (map f xs)"
  using assms
proof (induction xs)
  case Nil then show ?case by simp
next
  case (Cons a xs)
  have le: "sum_list (map g xs) \<le> sum_list (map f xs)"
    using Cons.prems(2) by (simp add: sum_list_mono)
  show ?case
  proof (cases "a = x")
    case True
    then show ?thesis using le Cons.prems(3) by simp
  next
    case False
    then have "x \<in> set xs" using Cons.prems(1) by simp
    then have "sum_list (map g xs) < sum_list (map f xs)"
      using Cons.IH Cons.prems by blast
    then show ?thesis using Cons.prems(2)[of a] by simp
  qed
qed

lemma domain_size_shrink:
  assumes "x \<in> set (variables c)" "d x = Some dx" "length vs < length dx"
  shows "domain_size c (d(x \<mapsto> vs)) < domain_size c d"
  unfolding domain_size_def
  by (rule sum_list_map_strict[OF assms(1)]) (use assms in \<open>auto split: option.splits\<close>)

text \<open>
  The \<open>while\<close> loop of \<open>ac3\<close>. It returns \<open>False\<close> with the domains as they are when
  a revision empties a domain, and \<open>True\<close> with the final domains when the worklist is
  empty.
\<close>

function ac3_loop :: "policy \<Rightarrow> crossword \<Rightarrow> arc list \<Rightarrow> domains \<Rightarrow> error + (bool \<times> domains)" where
  "ac3_loop pick c arcs d =
     (if length arcs > 0 then
        (let k = pick arcs d mod length arcs;
             arc = arcs ! k;
             arcs1 = take k arcs @ drop (Suc k) arcs;
             X = fst arc;
             Y = snd arc
         in case revise c d X Y of
              Inl e \<Rightarrow> Inl e
            | Inr (revised, d1) \<Rightarrow>
                if revised then
                  (case d1 X of
                     None \<Rightarrow> Inl KeyError
                   | Some dX \<Rightarrow>
                       if length dX = 0 then Inr (False, d1)
                       else ac3_loop pick c (requeue c X arcs1) d1)
                else ac3_loop pick c arcs1 d1)
      else Inr (True, d))"
  by pat_completeness auto
termination
proof (relation "measures [\<lambda>(pick, c, arcs, d). domain_size c d, \<lambda>(pick, c, arcs, d). length arcs]", goal_cases)
  case 1
  then show ?case by simp
next
  case (2 pick c arcs d k arc arcs1 X Y r revised d1 dX)
  then show ?case
    by (auto dest!: revise_True intro: domain_size_shrink)
next
  case (3 pick c arcs d k arc arcs1 X Y r revised d1)
  then have "d1 = d" by (auto dest: revise_False)
  moreover have "length arcs1 < length arcs"
  proof -
    have "0 < length arcs" using 3 by simp
    then have "k < length arcs" unfolding \<open>k = pick arcs d mod length arcs\<close> by (rule mod_less_divisor)
    then show ?thesis unfolding \<open>arcs1 = take k arcs @ drop (Suc k) arcs\<close> by simp
  qed
  ultimately show ?case by simp
qed

text \<open>
  \<open>ac3\<close>: a given collection of arcs becomes a set; \<open>None\<close> seeds the worklist with
  every arc of the puzzle. An empty collection is left as it is and the loop ends at once.
\<close>

definition ac3 :: "policy \<Rightarrow> crossword \<Rightarrow> domains \<Rightarrow> arc list option \<Rightarrow> error + (bool \<times> domains)" where
  "ac3 pick c d arcs =
     (case arcs of
        None \<Rightarrow> ac3_loop pick c (all_arcs c) d
      | Some given \<Rightarrow> ac3_loop pick c (fold add_arc given []) d)"

subsection \<open>The predicates on assignments\<close>

text \<open>
  \<open>assignment_complete\<close>: every slot is a key of the assignment and its word is not
  the empty string.
\<close>

definition assignment_complete :: "crossword \<Rightarrow> assignment \<Rightarrow> bool" where
  "assignment_complete c a =
     list_all (\<lambda>variable. case map_of a variable of None \<Rightarrow> False | Some w \<Rightarrow> w \<noteq> [])
       (variables c)"

text \<open>
  The loop of \<open>consistent\<close> over the neighbors of one slot. \<open>Inr False\<close> is the
  source's \<open>return False\<close>, \<open>Inr True\<close> the end of the loop. A neighbor that is not
  assigned, or whose word is empty, is skipped.
\<close>

fun consistent_neighbors ::
  "crossword \<Rightarrow> assignment \<Rightarrow> variable \<Rightarrow> string \<Rightarrow> variable list \<Rightarrow> error + bool" where
  "consistent_neighbors c a variable val [] = Inr True"
| "consistent_neighbors c a variable val (neighbor # rest) =
     (case map_of a neighbor of
        None \<Rightarrow> consistent_neighbors c a variable val rest
      | Some n_value \<Rightarrow>
          if n_value = [] then consistent_neighbors c a variable val rest
          else if val = n_value then Inr False
          else
            (case overlaps_get c variable neighbor of
               Inl e \<Rightarrow> Inl e
             | Inr None \<Rightarrow> consistent_neighbors c a variable val rest
             | Inr (Some (i, j)) \<Rightarrow>
                 if i < length val \<and> j < length n_value
                 then (if val ! i \<noteq> n_value ! j then Inr False
                       else consistent_neighbors c a variable val rest)
                 else Inl IndexError))"

text \<open>
  The loop of \<open>consistent\<close> over the slots of the puzzle. A slot that is not assigned, or
  whose word is empty, is skipped.
\<close>

fun consistent_variables :: "crossword \<Rightarrow> assignment \<Rightarrow> variable list \<Rightarrow> error + bool" where
  "consistent_variables c a [] = Inr True"
| "consistent_variables c a (variable # rest) =
     (case map_of a variable of
        None \<Rightarrow> consistent_variables c a rest
      | Some val \<Rightarrow>
          if val = [] then consistent_variables c a rest
          else if length val \<noteq> var_length variable then Inr False
          else
            (case consistent_neighbors c a variable val (neighbors c variable) of
               Inl e \<Rightarrow> Inl e
             | Inr ok \<Rightarrow> if ok then consistent_variables c a rest else Inr False))"

definition consistent :: "crossword \<Rightarrow> assignment \<Rightarrow> error + bool" where
  "consistent c a = consistent_variables c a (variables c)"

subsection \<open>\<open>backtrack\<close>\<close>

text \<open>
  A log of what the search does: \<open>Call\<close> is written at every entry into \<open>backtrack\<close>,
  \<open>Update variable word\<close> at every \<open>assignment.update({variable: word})\<close>. The log is
  not part of the source; it makes the order of the search observable.
\<close>

datatype event = Call | Update variable string

text \<open>
  \<open>if result:\<close> on what \<open>backtrack\<close> returned: \<open>None\<close> and the empty dictionary are
  false.
\<close>

definition truthy :: "assignment option \<Rightarrow> bool" where
  "truthy result = (case result of None \<Rightarrow> False | Some r \<Rightarrow> r \<noteq> [])"

text \<open>
  \<open>assignment.pop(variable)\<close> raises \<open>KeyError\<close> when the key is absent.
\<close>

definition pop :: "assignment \<Rightarrow> variable \<Rightarrow> error + assignment" where
  "pop a variable =
     (if map_of a variable = None then Inl KeyError else Inr (AList.delete variable a))"

text \<open>
  \<open>backtrack\<close> and its loop over \<open>self.domains[variable]\<close>. The assignment is mutated
  in place by the source, so both return the assignment as they leave it, next to the
  result and the log. Only the first slot that is not assigned is tried: the source
  returns \<open>None\<close> after its loop over that slot's words.
\<close>

function backtrack ::
    "crossword \<Rightarrow> domains \<Rightarrow> assignment \<Rightarrow> error + (assignment option \<times> assignment \<times> event list)"
  and backtrack_values ::
    "crossword \<Rightarrow> domains \<Rightarrow> variable \<Rightarrow> string list \<Rightarrow> assignment \<Rightarrow>
     error + (assignment option \<times> assignment \<times> event list)"
where
  "backtrack c d a =
     (if length (variables c) = length a then Inr (Some a, a, [Call])
      else
        (case find (\<lambda>variable. map_of a variable = None) (variables c) of
           None \<Rightarrow> Inr (None, a, [Call])
         | Some variable \<Rightarrow>
             (case d variable of
                None \<Rightarrow> Inl KeyError
              | Some dv \<Rightarrow>
                  (case backtrack_values c d variable dv a of
                     Inl e \<Rightarrow> Inl e
                   | Inr (result, a', t) \<Rightarrow> Inr (result, a', Call # t)))))"
| "backtrack_values c d variable [] a = Inr (None, a, [])"
| "backtrack_values c d variable (domain # rest) a =
     (case consistent c (AList.update variable domain a) of
        Inl e \<Rightarrow> Inl e
      | Inr ok \<Rightarrow>
          (case (if ok then backtrack c d (AList.update variable domain a)
                 else Inr (None, AList.update variable domain a, [])) of
             Inl e \<Rightarrow> Inl e
           | Inr (result, a2, t) \<Rightarrow>
               if truthy result then Inr (result, a2, Update variable domain # t)
               else
                 (case pop a2 variable of
                    Inl e \<Rightarrow> Inl e
                  | Inr a3 \<Rightarrow>
                      (case backtrack_values c d variable rest a3 of
                         Inl e \<Rightarrow> Inl e
                       | Inr (result', a4, t') \<Rightarrow>
                           Inr (result', a4, Update variable domain # t @ t')))))"
  by pat_completeness auto


text \<open>
  Termination needs that a failed call leaves the assignment as it found it, which is
  proved first on the domain of the functions.
\<close>

lemma find_unassigned:
  assumes "find (\<lambda>variable. map_of a variable = None) vs = Some v"
  shows "v \<in> set vs" and "v \<notin> fst ` set a" and "map_of a v = None"
proof -
  from assms obtain i where "i < length vs" "map_of a (vs ! i) = None" "v = vs ! i"
    unfolding find_Some_iff by blast
  then show "v \<in> set vs" and "map_of a v = None" by auto
  then show "v \<notin> fst ` set a" by (simp add: map_of_eq_None_iff)
qed

lemma keys_delete: "fst ` set (AList.delete k al) = fst ` set al - {k}"
proof -
  have "set (map fst (AList.delete k al)) = set (removeAll k (map fst al))"
    by (simp only: delete_keys)
  then show ?thesis by simp
qed

lemma pop_update: "pop (AList.update v w a) v = Inr (AList.delete v a)"
  by (simp add: pop_def update_conv' delete_update_same)

lemma backtrack_restores_dom:
  shows "backtrack_backtrack_values_dom (Inl (c, d, a)) \<Longrightarrow>
         backtrack c d a = Inr (r, a', t) \<Longrightarrow> \<not> truthy r \<Longrightarrow> a' = a"
    and "backtrack_backtrack_values_dom (Inr (c, d, v, ws, a)) \<Longrightarrow>
         backtrack_values c d v ws a = Inr (r, a', t) \<Longrightarrow> \<not> truthy r \<Longrightarrow>
         a' = (if ws = [] then a else AList.delete v a)"
proof (induction c d a and c d v ws a arbitrary: r a' t and r a' t
    rule: backtrack_backtrack_values.pinduct)
  case (1 c d a)
  show ?case
  proof (cases "length (variables c) = length a")
    case True
    then show ?thesis using "1.prems" "1.hyps" by (simp add: backtrack.psimps)
  next
    case False
    show ?thesis
    proof (cases "find (\<lambda>variable. map_of a variable = None) (variables c)")
      case None
      then show ?thesis using False "1.prems" "1.hyps" by (simp add: backtrack.psimps)
    next
      case (Some v)
      then obtain dv t0 where dv: "d v = Some dv"
        and bv: "backtrack_values c d v dv a = Inr (r, a', t0)"
        using False "1.prems" "1.hyps"
        by (auto simp: backtrack.psimps split: option.splits sum.splits)
      have "a' = (if dv = [] then a else AList.delete v a)"
        using "1.IH"[OF False Some dv bv "1.prems"(2)] .
      then show ?thesis using find_unassigned(2)[OF Some] by simp
    qed
  qed
next
  case (2 c d variable a)
  then show ?case by (simp add: backtrack_values.psimps)
next
  case (3 c d variable domain rest a)
  let ?a1 = "AList.update variable domain a"
  from "3.prems"(1) "3.hyps" obtain b where b: "consistent c ?a1 = Inr b"
    by (auto simp: backtrack_values.psimps split: sum.splits)
  from "3.prems"(1) "3.hyps" b obtain x xa ya where
    inner: "(if b then backtrack c d ?a1 else Inr (None, ?a1, [])) = Inr (x, xa, ya)"
    by (auto simp: backtrack_values.psimps split: sum.splits)
  have nt: "\<not> truthy x"
    using "3.prems" "3.hyps" b inner
    by (auto simp: backtrack_values.psimps split: sum.splits if_splits)
  have xa: "xa = ?a1"
  proof (cases b)
    case True
    then show ?thesis using "3.IH"(1)[OF b True _ nt] inner by simp
  next
    case False
    then show ?thesis using inner by simp
  qed
  have pop: "pop xa variable = Inr (AList.delete variable a)"
    unfolding xa by (rule pop_update)
  from "3.prems"(1) "3.hyps" b inner nt pop obtain t' where
    rest: "backtrack_values c d variable rest (AList.delete variable a) = Inr (r, a', t')"
    by (auto simp: backtrack_values.psimps split: sum.splits if_splits)
  have "a' = (if rest = [] then AList.delete variable a
              else AList.delete variable (AList.delete variable a))"
    using "3.IH"(2)[OF b inner refl refl nt pop rest "3.prems"(2)] .
  then show ?case by (simp add: delete_idem)
qed

lemma backtrack_total: "All backtrack_backtrack_values_dom"
proof (rule "backtrack_backtrack_values.termination"[where R = "measures [
    (\<lambda>x. case x of Inl (c, d, a) \<Rightarrow> card (set (variables c) - fst ` set a)
                  | Inr (c, d, v, ws, a) \<Rightarrow> card (set (variables c) - fst ` set a - {v})),
    (\<lambda>x. case x of Inl _ \<Rightarrow> 0 | Inr _ \<Rightarrow> 1),
    (\<lambda>x. case x of Inl _ \<Rightarrow> 0 | Inr (c, d, v, ws, a) \<Rightarrow> length ws)]"], goal_cases)
  case 1
  then show ?case by simp
next
  case (2 c d a v dv)
  have "v \<in> set (variables c) - fst ` set a"
    using find_unassigned(1,2)[OF 2(2)] by simp
  then have "card (set (variables c) - fst ` set a - {v}) < card (set (variables c) - fst ` set a)"
    by (intro card_Diff1_less) simp_all
  then show ?case by simp
next
  case (3 c d variable domain rest a b)
  have "set (variables c) - fst ` set (AList.update variable domain a)
        = set (variables c) - fst ` set a - {variable}"
    by (auto simp: dom_update)
  then show ?case by simp
next
  case (4 c d variable domain rest a b ba x y xa ya bb)
  have xa: "xa = AList.update variable domain a"
  proof (cases b)
    case True
    have "backtrack c d (AList.update variable domain a) = Inr (x, xa, ya)"
      using 4 True by simp
    then show ?thesis using backtrack_restores_dom(1)[OF 4(7)[OF True] _ 4(5)] by simp
  next
    case False
    then show ?thesis using 4 by auto
  qed
  have "bb = AList.delete variable a" using 4(6) unfolding xa pop_update by simp
  then have "fst ` set bb - {variable} = fst ` set a - {variable}"
    by (simp add: keys_delete)
  then have "set (variables c) - fst ` set bb - {variable}
           = set (variables c) - fst ` set a - {variable}" by blast
  then show ?case by simp
qed

termination backtrack
  by (rule backtrack_total)

subsection \<open>The ordering heuristics\<close>

text \<open>
  \<open>order_domain_values\<close>, innermost loop: the words of one neighbor's domain that
  differ from \<open>value\<close> at the offsets; \<open>IndexError\<close> when an offset is out of range.
\<close>

fun count_conflicts :: "nat \<Rightarrow> nat \<Rightarrow> string \<Rightarrow> string list \<Rightarrow> error + nat" where
  "count_conflicts i j val [] = Inr 0"
| "count_conflicts i j val (n_value # rest) =
     (if i < length val \<and> j < length n_value
      then (case count_conflicts i j val rest of
              Inl e \<Rightarrow> Inl e
            | Inr n \<Rightarrow> Inr (if val ! i \<noteq> n_value ! j then Suc n else n))
      else Inl IndexError)"

text \<open>
  The loop over the neighbors of \<open>var\<close>: an assigned neighbor is skipped
  (\<open>continue\<close>); the offsets are read from the table entry before any test.
\<close>

fun count_neighbors ::
  "crossword \<Rightarrow> domains \<Rightarrow> assignment \<Rightarrow> variable \<Rightarrow> string \<Rightarrow> variable list \<Rightarrow> error + nat" where
  "count_neighbors c d a var val [] = Inr 0"
| "count_neighbors c d a var val (neighbor # rest) =
     (if map_of a neighbor \<noteq> None then count_neighbors c d a var val rest
      else
        (case overlaps_get c var neighbor of
           Inl e \<Rightarrow> Inl e
         | Inr None \<Rightarrow> Inl TypeError
         | Inr (Some (i, j)) \<Rightarrow>
             (case d neighbor of
                None \<Rightarrow> Inl KeyError
              | Some dn \<Rightarrow>
                  (case count_conflicts i j val dn of
                     Inl e \<Rightarrow> Inl e
                   | Inr n \<Rightarrow>
                       (case count_neighbors c d a var val rest of
                          Inl e \<Rightarrow> Inl e
                        | Inr m \<Rightarrow> Inr (n + m))))))"

text \<open>
  The loop over the words of the slot's domain, building the items of the dictionary
  \<open>order_values\<close> in the order of the domain.
\<close>

fun count_values ::
  "crossword \<Rightarrow> domains \<Rightarrow> assignment \<Rightarrow> variable \<Rightarrow> string list \<Rightarrow> error + (string \<times> nat) list" where
  "count_values c d a var [] = Inr []"
| "count_values c d a var (val # rest) =
     (case count_neighbors c d a var val (neighbors c var) of
        Inl e \<Rightarrow> Inl e
      | Inr n \<Rightarrow>
          (case count_values c d a var rest of
             Inl e \<Rightarrow> Inl e
           | Inr order_values \<Rightarrow> Inr ((val, n) # order_values)))"

text \<open>
  \<open>order_domain_values\<close>: the keys of \<open>order_values\<close> sorted by their count.
  Python's \<open>sorted\<close> is stable, as \<open>sort_key\<close> is.
\<close>

definition order_domain_values ::
  "crossword \<Rightarrow> domains \<Rightarrow> variable \<Rightarrow> assignment \<Rightarrow> error + string list" where
  "order_domain_values c d var a =
     (case d var of
        None \<Rightarrow> Inl KeyError
      | Some dv \<Rightarrow>
          (case count_values c d a var dv of
             Inl e \<Rightarrow> Inl e
           | Inr order_values \<Rightarrow> Inr (map fst (sort_key snd order_values))))"




subsection \<open>\<open>solve\<close>\<close>

text \<open>
  \<open>solve\<close> runs node consistency, then \<open>ac3\<close>, whose result it does not read, then
  \<open>backtrack\<close> on the empty assignment. The log of \<open>backtrack\<close> is returned with the
  result.
\<close>

definition solve :: "policy \<Rightarrow> crossword \<Rightarrow> error + (assignment option \<times> event list)" where
  "solve pick c =
     (case ac3 pick c (enforce_node_consistency (init_domains c)) None of
        Inl e \<Rightarrow> Inl e
      | Inr (ok, d) \<Rightarrow>
          (case backtrack c d [] of
             Inl e \<Rightarrow> Inl e
           | Inr (result, a, t) \<Rightarrow> Inr (result, t)))"

subsection \<open>Example puzzles\<close>

text \<open>
  Three slots: \<open>slot_A\<close> runs across the top row, \<open>slot_B\<close> runs down the second column
  and \<open>slot_C\<close> runs across the third row. \<open>slot_A\<close> and \<open>slot_C\<close> both cross
  \<open>slot_B\<close> and share no cell with each other.
\<close>

definition slot_A :: variable where
  "slot_A = Variable 0 0 ACROSS 3"

definition slot_B :: variable where
  "slot_B = Variable 0 1 DOWN 4"

definition slot_C :: variable where
  "slot_C = Variable 2 0 ACROSS 3"

definition cross_overlaps :: "variable \<times> variable \<Rightarrow> (nat \<times> nat) option" where
  "cross_overlaps p =
     (if p = (slot_A, slot_B) then Some (1, 0)
      else if p = (slot_B, slot_A) then Some (0, 1)
      else if p = (slot_B, slot_C) then Some (2, 1)
      else if p = (slot_C, slot_B) then Some (1, 2)
      else None)"

definition cross :: "string list \<Rightarrow> crossword" where
  "cross vocabulary =
     \<lparr>variables = [slot_A, slot_B], words = vocabulary, overlaps = cross_overlaps\<rparr>"

definition three_slots :: "string list \<Rightarrow> crossword" where
  "three_slots vocabulary =
     \<lparr>variables = [slot_A, slot_B, slot_C], words = vocabulary, overlaps = cross_overlaps\<rparr>"

text \<open>A worklist policy: always pop the first pending arc.\<close>

definition pop_first :: policy where
  "pop_first arcs d = 0"

subsection \<open>Predicates of the statements\<close>

text \<open>
  One arc is consistent: every word of the domain of \<open>x\<close> has a word in the domain of
  \<open>y\<close> that agrees with it at the offsets of the pair, both offsets in range.
\<close>

definition arc_ok :: "crossword \<Rightarrow> domains \<Rightarrow> variable \<Rightarrow> variable \<Rightarrow> bool" where
  "arc_ok c d x y =
     (case d x of
        None \<Rightarrow> False
      | Some dx \<Rightarrow>
          (case overlaps c (x, y) of
             None \<Rightarrow> False
           | Some (i, j) \<Rightarrow>
               list_all (\<lambda>w. case d y of
                                None \<Rightarrow> False
                              | Some dy \<Rightarrow>
                                  list_ex (\<lambda>w'. i < length w \<and> j < length w' \<and> w ! i = w' ! j) dy)
                 dx))"

text \<open>
  Arc consistency of the domains: every slot of the puzzle with each of its neighbors.
\<close>

definition arc_consistent :: "crossword \<Rightarrow> domains \<Rightarrow> bool" where
  "arc_consistent c d =
     list_all (\<lambda>x. list_all (\<lambda>y. arc_ok c d x y) (neighbors c x)) (variables c)"

text \<open>
  The domains \<open>d'\<close> are the domains \<open>d\<close> shrunk: the same slots, each with a subset of
  its words.
\<close>

definition shrinks :: "domains \<Rightarrow> domains \<Rightarrow> bool" where
  "shrinks d d' =
     (\<forall>v. case d v of
            None \<Rightarrow> d' v = None
          | Some ws \<Rightarrow> (\<exists>ws'. d' v = Some ws' \<and> set ws' \<subseteq> set ws \<and> length ws' \<le> length ws))"

text \<open>
  The invariant of the worklist: an arc of the puzzle is pending or consistent.
\<close>

definition pending_or_ok :: "crossword \<Rightarrow> arc list \<Rightarrow> domains \<Rightarrow> bool" where
  "pending_or_ok c arcs d =
     (\<forall>x \<in> set (variables c). \<forall>y \<in> set (neighbors c x). (x, y) \<in> set arcs \<or> arc_ok c d x y)"

text \<open>
  One pair of assigned words passes the tests of \<open>consistent\<close>: the words differ, the
  table has an entry for the pair, and when the entry holds offsets the words agree there,
  both offsets in range.
\<close>

definition pair_ok :: "crossword \<Rightarrow> variable \<Rightarrow> string \<Rightarrow> variable \<Rightarrow> string \<Rightarrow> bool" where
  "pair_ok c x w y w' =
     (w \<noteq> w' \<and>
      (case overlaps_get c x y of
         Inl e \<Rightarrow> False
       | Inr None \<Rightarrow> True
       | Inr (Some (i, j)) \<Rightarrow> i < length w \<and> j < length w' \<and> w ! i = w' ! j))"

text \<open>
  A well-formed dictionary whose keys are slots of the puzzle and whose words are not empty.
\<close>

definition valid_entries :: "crossword \<Rightarrow> assignment \<Rightarrow> bool" where
  "valid_entries c a =
     (distinct (map fst a) \<and> list_all (\<lambda>(v, w). v \<in> set (variables c) \<and> w \<noteq> []) a)"

text \<open>
  No domain of a slot of the puzzle holds the empty word.
\<close>

definition no_empty_word :: "crossword \<Rightarrow> domains \<Rightarrow> bool" where
  "no_empty_word c d =
     list_all (\<lambda>v. case d v of None \<Rightarrow> True | Some ws \<Rightarrow> list_all (\<lambda>w. w \<noteq> []) ws) (variables c)"

text \<open>
  What \<open>enforce_node_consistency\<close> establishes: every slot of the puzzle has a domain, and
  every word of it has the slot's length.
\<close>

definition node_consistent :: "crossword \<Rightarrow> domains \<Rightarrow> bool" where
  "node_consistent c d =
     list_all (\<lambda>v. case d v of
                      None \<Rightarrow> False
                    | Some ws \<Rightarrow> list_all (\<lambda>w. length w = var_length v) ws)
       (variables c)"

text \<open>
  A well-formed dictionary whose keys are slots of the puzzle, each word of its slot's length.
\<close>

definition fitting_entries :: "crossword \<Rightarrow> assignment \<Rightarrow> bool" where
  "fitting_entries c a =
     (distinct (map fst a) \<and>
      list_all (\<lambda>(v, w). v \<in> set (variables c) \<and> length w = var_length v) a)"

text \<open>
  Every entry of \<open>a\<close> is an entry of \<open>s\<close>.
\<close>

definition agrees :: "assignment \<Rightarrow> assignment \<Rightarrow> bool" where
  "agrees a s = list_all (\<lambda>(v, w). map_of s v = Some w) a"

text \<open>
  A satisfying assignment within the domains: complete, consistent, and every slot's word
  drawn from the slot's domain.
\<close>

definition solution :: "crossword \<Rightarrow> domains \<Rightarrow> assignment \<Rightarrow> bool" where
  "solution c d s =
     (assignment_complete c s \<and> consistent c s = Inr True \<and>
      list_all (\<lambda>v. case map_of s v of
                       None \<Rightarrow> False
                     | Some w \<Rightarrow> (case d v of None \<Rightarrow> False | Some ws \<Rightarrow> w \<in> set ws))
        (variables c))"

text \<open>
  The elimination count in the words of the specification: a word of the neighbor's domain
  is eliminated by \<open>w\<close> when it differs from \<open>w\<close> at the overlap offsets of the pair; the
  count of \<open>w\<close> is the number of such words, summed over the neighbors that are not assigned.
\<close>

definition disagree :: "crossword \<Rightarrow> variable \<Rightarrow> variable \<Rightarrow> string \<Rightarrow> string \<Rightarrow> bool" where
  "disagree c var n w w' =
     (case overlaps c (var, n) of None \<Rightarrow> False | Some (i, j) \<Rightarrow> w ! i \<noteq> w' ! j)"

definition elimination_count :: "crossword \<Rightarrow> domains \<Rightarrow> assignment \<Rightarrow> variable \<Rightarrow> string \<Rightarrow> nat" where
  "elimination_count c d a var w =
     sum_list
       (map (\<lambda>n. length (filter (disagree c var n w) (case d n of None \<Rightarrow> [] | Some dn \<Rightarrow> dn)))
         (filter (\<lambda>n. map_of a n = None) (neighbors c var)))"






section \<open>Properties\<close>

subsection \<open>Invariants of the worklist loop\<close>

declare ac3_loop.simps [simp del]

lemma ac3_loop_rule:
  assumes run: "ac3_loop pick c arcs d = Inr (ok, d')"
    and init: "I arcs d"
    and keep: "\<And>arcs d k X Y. I arcs d \<Longrightarrow> k < length arcs \<Longrightarrow> arcs ! k = (X, Y) \<Longrightarrow>
                 revise c d X Y = Inr (False, d) \<Longrightarrow> I (take k arcs @ drop (Suc k) arcs) d"
    and change: "\<And>arcs d k X Y d1 dX. I arcs d \<Longrightarrow> k < length arcs \<Longrightarrow> arcs ! k = (X, Y) \<Longrightarrow>
                 revise c d X Y = Inr (True, d1) \<Longrightarrow> d1 X = Some dX \<Longrightarrow> dX \<noteq> [] \<Longrightarrow>
                 I (requeue c X (take k arcs @ drop (Suc k) arcs)) d1"
  shows "if ok then I [] d'
         else (\<exists>arcs0 d0 k X Y. I arcs0 d0 \<and> k < length arcs0 \<and> arcs0 ! k = (X, Y) \<and>
                 revise c d0 X Y = Inr (True, d') \<and> d' X = Some [])"
  using run init keep change
proof (induction pick c arcs d rule: ac3_loop.induct)
  case (1 pick c arcs d)
  note keep = "1.prems"(3) and change = "1.prems"(4)
  show ?case
  proof (cases "0 < length arcs")
    case False
    have "ac3_loop pick c arcs d = Inr (True, d)"
      using False by (subst ac3_loop.simps) simp
    then show ?thesis using "1.prems" False by simp
  next
    case True
    let ?k = "pick arcs d mod length arcs"
    let ?X = "fst (arcs ! ?k)"
    let ?Y = "snd (arcs ! ?k)"
    let ?arcs1 = "take ?k arcs @ drop (Suc ?k) arcs"
    have k: "?k < length arcs" using True by (rule mod_less_divisor)
    have arc: "arcs ! ?k = (?X, ?Y)" by simp
    from "1.prems"(1) True obtain revised d1 where rev: "revise c d ?X ?Y = Inr (revised, d1)"
      by (auto simp: ac3_loop.simps[of pick c arcs d] Let_def split: sum.splits)
    show ?thesis
    proof (cases revised)
      case False
      have d1: "d1 = d" using rev False revise_False[of c d ?X ?Y d1] by simp
      have next_run: "ac3_loop pick c ?arcs1 d1 = Inr (ok, d')"
        using "1.prems"(1) True rev False
        by (simp add: ac3_loop.simps[of pick c arcs d] Let_def)
      have revF: "revise c d ?X ?Y = Inr (False, d)" using rev False d1 by simp
      have I1: "I ?arcs1 d1"
        unfolding d1 by (rule keep[OF "1.prems"(2) k arc revF])
      show ?thesis
        by (rule "1.IH"(2)[OF True refl refl refl refl refl rev refl False next_run I1 keep change])
    next
      case rv: True
      from "1.prems"(1) True rev rv obtain dX where dX: "d1 ?X = Some dX"
        by (auto simp: ac3_loop.simps[of pick c arcs d] Let_def split: option.splits)
      show ?thesis
      proof (cases "length dX = 0")
        case True
        then have "ok = False" "d' = d1" using "1.prems"(1) \<open>0 < length arcs\<close> rev rv dX
          by (simp_all add: ac3_loop.simps[of pick c arcs d] Let_def)
        moreover have "revise c d ?X ?Y = Inr (True, d1)" using rev rv by simp
        moreover have "d1 ?X = Some []" using dX True by simp
        ultimately have "\<exists>arcs0 d0 k X Y. I arcs0 d0 \<and> k < length arcs0 \<and> arcs0 ! k = (X, Y) \<and>
                 revise c d0 X Y = Inr (True, d') \<and> d' X = Some []"
          using "1.prems"(2) k arc by blast
        then show ?thesis using \<open>ok = False\<close> by simp
      next
        case False
        have next_run: "ac3_loop pick c (requeue c ?X ?arcs1) d1 = Inr (ok, d')"
          using "1.prems"(1) True rev rv dX False
          by (simp add: ac3_loop.simps[of pick c arcs d] Let_def)
        have revT: "revise c d ?X ?Y = Inr (True, d1)" using rev rv by simp
        have "dX \<noteq> []" using False by simp
        then have I1: "I (requeue c ?X ?arcs1) d1"
          by (rule change[OF "1.prems"(2) k arc revT dX])
        show ?thesis
          by (rule "1.IH"(1)[OF True refl refl refl refl refl rev refl rv dX False next_run I1 keep change])
      qed
    qed
  qed
qed

lemma shrinks_refl: "shrinks d d"
  by (auto simp: shrinks_def split: option.splits)

lemma shrinks_trans: "shrinks d1 d2 \<Longrightarrow> shrinks d2 d3 \<Longrightarrow> shrinks d1 d3"
  unfolding shrinks_def
proof (intro allI)
  fix v
  assume 12: "\<forall>v. case d1 v of None \<Rightarrow> d2 v = None
      | Some ws \<Rightarrow> \<exists>ws'. d2 v = Some ws' \<and> set ws' \<subseteq> set ws \<and> length ws' \<le> length ws"
    and 23: "\<forall>v. case d2 v of None \<Rightarrow> d3 v = None
      | Some ws \<Rightarrow> \<exists>ws'. d3 v = Some ws' \<and> set ws' \<subseteq> set ws \<and> length ws' \<le> length ws"
  show "case d1 v of None \<Rightarrow> d3 v = None
      | Some ws \<Rightarrow> \<exists>ws'. d3 v = Some ws' \<and> set ws' \<subseteq> set ws \<and> length ws' \<le> length ws"
    using 12[rule_format, of v] 23[rule_format, of v]
    by (fastforce split: option.splits)
qed

lemma revise_shrinks: "revise c d x y = Inr (revised, d1) \<Longrightarrow> shrinks d d1"
proof (cases revised)
  case True
  assume "revise c d x y = Inr (revised, d1)"
  with True have "revise c d x y = Inr (True, d1)" by simp
  from revise_True[OF this] obtain dx vs where "d x = Some dx" "d1 = d(x \<mapsto> vs)"
    "length vs < length dx" "set vs \<subseteq> set dx"
    by blast
  then show ?thesis by (auto simp: shrinks_def split: option.splits)
next
  case False
  assume "revise c d x y = Inr (revised, d1)"
  with False have "revise c d x y = Inr (False, d1)" by simp
  then have "d1 = d" by (rule revise_False)
  then show ?thesis by (simp add: shrinks_refl)
qed

lemma ac3_loop_shrinks:
  assumes "ac3_loop pick c arcs d = Inr (ok, d')"
  shows "shrinks d d'"
proof -
  have "if ok then shrinks d d'
        else (\<exists>arcs0 d0 k X Y. shrinks d d0 \<and> k < length arcs0 \<and> arcs0 ! k = (X, Y) \<and>
                 revise c d0 X Y = Inr (True, d') \<and> d' X = Some [])"
    by (rule ac3_loop_rule[OF assms, where I = "\<lambda>arcs0 d0. shrinks d d0"])
       (auto intro: shrinks_refl shrinks_trans revise_shrinks)
  then show ?thesis
    by (auto split: if_splits intro: shrinks_trans revise_shrinks)
qed

lemma ac3_loop_failure:
  assumes "ac3_loop pick c arcs d = Inr (False, d')"
  shows "\<exists>X \<in> set (variables c). d' X = Some []"
proof -
  have "if False then True
        else (\<exists>arcs0 d0 k X Y. True \<and> k < length arcs0 \<and> arcs0 ! k = (X, Y) \<and>
                 revise c d0 X Y = Inr (True, d') \<and> d' X = Some [])"
    by (rule ac3_loop_rule[OF assms, where I = "\<lambda>arcs0 d0. True"]) auto
  then show ?thesis using revise_True by fastforce
qed

lemma has_support_True:
  "has_support i j w dy = Inr True \<Longrightarrow>
   list_ex (\<lambda>w'. i < length w \<and> j < length w' \<and> w ! i = w' ! j) dy"
  by (induction dy) (auto split: if_splits)

lemma revise_arc_ok:
  assumes "revise c d x y = Inr (revised, d1)"
  shows "arc_ok c d1 x y"
proof -
  from assms obtain i j dx vs where
    ov: "overlaps c (x, y) = Some (i, j)" and xy: "x \<noteq> y" and dx: "d x = Some dx"
    and vs: "valid_words_loop d y i j dx = Inr vs"
    and res: "if set vs = set dx then d1 = d else d1 = d(x \<mapsto> vs)"
    by (auto simp: revise_def overlaps_get_def split: sum.splits option.splits if_splits)
  let ?P = "\<lambda>w. \<exists>dy. d y = Some dy \<and> has_support i j w dy = Inr True"
  have vsP: "vs = filter ?P dx" using valid_words_loop_filter[OF vs] .
  have sup: "\<forall>w \<in> set vs. case d y of None \<Rightarrow> False
      | Some dy \<Rightarrow> list_ex (\<lambda>w'. i < length w \<and> j < length w' \<and> w ! i = w' ! j) dy"
    using vsP has_support_True by (auto split: option.splits)
  show ?thesis
  proof (cases "set vs = set dx")
    case True
    then have "d1 = d" using res by simp
    then show ?thesis using sup True dx ov by (simp add: arc_ok_def list_all_iff)
  next
    case False
    then have "d1 = d(x \<mapsto> vs)" using res by simp
    then show ?thesis using sup xy ov by (simp add: arc_ok_def list_all_iff)
  qed
qed

lemma set_add_arc: "set (add_arc a arcs) = insert a (set arcs)"
  by (auto simp: add_arc_def)

lemma set_fold_add_arc: "set (fold add_arc xs arcs) = set xs \<union> set arcs"
  by (induction xs arbitrary: arcs) (auto simp: set_add_arc)

lemma set_all_arcs:
  "set (all_arcs c) = {(x, y). x \<in> set (variables c) \<and> y \<in> set (neighbors c x)}"
  by (auto simp: all_arcs_def set_fold_add_arc)

lemma set_requeue_aux:
  "set (fold (\<lambda>Z arcs. add_arc (Z, X) (add_arc (X, Z) arcs)) zs arcs)
   = set arcs \<union> (\<lambda>Z. (X, Z)) ` set zs \<union> (\<lambda>Z. (Z, X)) ` set zs"
  by (induction zs arbitrary: arcs) (auto simp: set_add_arc)

lemma set_requeue:
  "set (requeue c X arcs)
   = set arcs \<union> (\<lambda>Z. (X, Z)) ` set (neighbors c X) \<union> (\<lambda>Z. (Z, X)) ` set (neighbors c X)"
  by (simp add: requeue_def set_requeue_aux)

lemma set_remove_nth: "set xs \<subseteq> insert (xs ! k) (set (take k xs @ drop (Suc k) xs))"
proof
  fix x assume "x \<in> set xs"
  then obtain n where n: "n < length xs" "xs ! n = x" by (auto simp: in_set_conv_nth)
  show "x \<in> insert (xs ! k) (set (take k xs @ drop (Suc k) xs))"
  proof (cases "n = k")
    case True
    then show ?thesis using n by simp
  next
    case False
    then consider "n < k" | "Suc k \<le> n" by linarith
    then show ?thesis
    proof cases
      case 1
      then have "x \<in> set (take k xs)" using n by (auto simp: in_set_conv_nth)
      then show ?thesis by simp
    next
      case 2
      then have "x = drop (Suc k) xs ! (n - Suc k)" "n - Suc k < length (drop (Suc k) xs)"
        using n by auto
      then have "x \<in> set (drop (Suc k) xs)" using nth_mem by blast
      then show ?thesis by simp
    qed
  qed
qed

lemma arc_ok_update_other:
  assumes "x \<noteq> X" "y \<noteq> X"
  shows "arc_ok c (d(X \<mapsto> vs)) x y = arc_ok c d x y"
proof -
  have "(d(X \<mapsto> vs)) x = d x" "(d(X \<mapsto> vs)) y = d y" using assms by simp_all
  then show ?thesis unfolding arc_ok_def by (simp only:)
qed

lemma pending_or_ok_keep:
  assumes inv: "pending_or_ok c arcs d" and k: "k < length arcs" and arc: "arcs ! k = (X, Y)"
    and rev: "revise c d X Y = Inr (False, d)"
  shows "pending_or_ok c (take k arcs @ drop (Suc k) arcs) d"
  unfolding pending_or_ok_def
proof (intro ballI)
  fix x y assume x: "x \<in> set (variables c)" and y: "y \<in> set (neighbors c x)"
  from inv x y have "(x, y) \<in> set arcs \<or> arc_ok c d x y" by (simp add: pending_or_ok_def)
  then show "(x, y) \<in> set (take k arcs @ drop (Suc k) arcs) \<or> arc_ok c d x y"
  proof
    assume "(x, y) \<in> set arcs"
    then have "(x, y) = (X, Y) \<or> (x, y) \<in> set (take k arcs @ drop (Suc k) arcs)"
      using set_remove_nth[of arcs k] arc by auto
    then show ?thesis using revise_arc_ok[OF rev] by auto
  qed simp
qed

lemma pending_or_ok_change:
  assumes inv: "pending_or_ok c arcs d" and k: "k < length arcs" and arc: "arcs ! k = (X, Y)"
    and rev: "revise c d X Y = Inr (True, d1)"
  shows "pending_or_ok c (requeue c X (take k arcs @ drop (Suc k) arcs)) d1"
  unfolding pending_or_ok_def
proof (intro ballI)
  fix x y assume x: "x \<in> set (variables c)" and y: "y \<in> set (neighbors c x)"
  let ?arcs1 = "take k arcs @ drop (Suc k) arcs"
  from revise_True[OF rev] obtain vs where X: "X \<in> set (variables c)" and d1: "d1 = d(X \<mapsto> vs)"
    by blast
  from inv x y have old: "(x, y) \<in> set arcs \<or> arc_ok c d x y" by (simp add: pending_or_ok_def)
  show "(x, y) \<in> set (requeue c X ?arcs1) \<or> arc_ok c d1 x y"
  proof (cases "x = X")
    case True
    then show ?thesis using y by (simp add: set_requeue)
  next
    case xX: False
    show ?thesis
    proof (cases "(x, y) \<in> set arcs")
      case True
      then have "(x, y) \<in> set ?arcs1" using set_remove_nth[of arcs k] arc xX by auto
      then show ?thesis by (simp add: set_requeue)
    next
      case False
      then have ok: "arc_ok c d x y" using old by simp
      show ?thesis
      proof (cases "y = X")
        case True
        have "overlaps c (x, X) \<noteq> None" using ok True
          by (auto simp: arc_ok_def split: option.splits)
        then have "x \<in> set (neighbors c X)" using x xX by (simp add: neighbors_def)
        then show ?thesis using True by (simp add: set_requeue)
      next
        case False
        then show ?thesis using ok xX d1 by (simp add: arc_ok_update_other)
      qed
    qed
  qed
qed

subsection \<open>Well-formed puzzles\<close>

lemma wf_overlaps:
  assumes "wf_crossword c" "x \<in> set (variables c)" "y \<in> set (variables c)"
  shows "case overlaps c (x, y) of
           None \<Rightarrow> overlaps c (y, x) = None
         | Some (i, j) \<Rightarrow> overlaps c (y, x) = Some (j, i) \<and> i < var_length x \<and> j < var_length y"
proof -
  from assms(1) have "\<forall>x \<in> set (variables c). \<forall>y \<in> set (variables c).
      (case overlaps c (x, y) of
           None \<Rightarrow> overlaps c (y, x) = None
         | Some (i, j) \<Rightarrow> overlaps c (y, x) = Some (j, i) \<and> i < var_length x \<and> j < var_length y)"
    unfolding wf_crossword_def list_all_iff by (rule conjunct2)
  then show ?thesis using assms(2,3) by simp
qed

lemma wf_overlaps_Some:
  assumes "wf_crossword c" "x \<in> set (variables c)" "y \<in> set (variables c)"
    "overlaps c (x, y) = Some (i, j)"
  shows "overlaps c (y, x) = Some (j, i)" "i < var_length x" "j < var_length y"
  using wf_overlaps[OF assms(1-3)] assms(4) by simp_all

lemma wf_overlaps_None:
  assumes "wf_crossword c" "x \<in> set (variables c)" "y \<in> set (variables c)"
    "overlaps c (x, y) = None"
  shows "overlaps c (y, x) = None"
  using wf_overlaps[OF assms(1-3)] assms(4) by simp

lemma wf_distinct: "wf_crossword c \<Longrightarrow> distinct (variables c)"
  by (simp add: wf_crossword_def)

lemma neighbors_iff:
  "y \<in> set (neighbors c x) \<longleftrightarrow> y \<in> set (variables c) \<and> y \<noteq> x \<and> overlaps c (y, x) \<noteq> None"
  by (auto simp: neighbors_def)

subsection \<open>Arc consistency after \<open>ac3\<close>\<close>

text \<open>
  Claim C6. When \<open>ac3\<close>, seeded with every ordered pair of neighboring slots, returns
  success, the domains it leaves are arc consistent: for every slot \<open>x\<close>, every neighbor
  \<open>y\<close> of \<open>x\<close> and every word of the domain of \<open>x\<close>, some word of the domain of \<open>y\<close>
  agrees with it at the overlap offsets of the pair. This holds for every worklist policy.
\<close>

theorem ac3_arc_consistent:
  assumes "ac3 pick c d None = Inr (True, d')"
  shows "arc_consistent c d'"
proof -
  have run: "ac3_loop pick c (all_arcs c) d = Inr (True, d')"
    using assms by (simp add: ac3_def)
  have "pending_or_ok c (all_arcs c) d"
    by (simp add: pending_or_ok_def set_all_arcs)
  from ac3_loop_rule[OF run, where I = "pending_or_ok c", OF this]
  have "pending_or_ok c [] d'"
    using pending_or_ok_keep pending_or_ok_change by force
  then show ?thesis
    by (simp add: pending_or_ok_def arc_consistent_def list_all_iff)
qed

theorem ac3_arc_consistent_witness:
  "\<exists>d'. ac3 pop_first (cross [''CAT'', ''DOG'', ''ATOM'', ''OPEN'', ''EXIT''])
           (enforce_node_consistency (init_domains (cross [''CAT'', ''DOG'', ''ATOM'', ''OPEN'', ''EXIT''])))
           None = Inr (True, d') \<and>
        d' slot_A = Some [''CAT'', ''DOG''] \<and> d' slot_B = Some [''ATOM'', ''OPEN''] \<and>
        arc_consistent (cross [''CAT'', ''DOG'', ''ATOM'', ''OPEN'', ''EXIT'']) d'"
proof -
  let ?c = "cross [''CAT'', ''DOG'', ''ATOM'', ''OPEN'', ''EXIT'']"
  have "case ac3 pop_first ?c (enforce_node_consistency (init_domains ?c)) None of
          Inl e \<Rightarrow> False
        | Inr (ok, d') \<Rightarrow> ok \<and> d' slot_A = Some [''CAT'', ''DOG''] \<and>
            d' slot_B = Some [''ATOM'', ''OPEN'']"
    by code_simp
  then obtain d' where run: "ac3 pop_first ?c (enforce_node_consistency (init_domains ?c)) None
      = Inr (True, d')"
    and doms: "d' slot_A = Some [''CAT'', ''DOG'']" "d' slot_B = Some [''ATOM'', ''OPEN'']"
    by (auto split: sum.splits)
  from ac3_arc_consistent[OF run] run doms show ?thesis by blast
qed

subsection \<open>The domains only shrink\<close>

text \<open>
  Claim C7. For every slot of the puzzle, the domain after \<open>ac3\<close> is a subset of the
  domain after \<open>enforce_node_consistency\<close>, which is a subset of the vocabulary, and the
  sizes are ordered accordingly. This holds whether \<open>ac3\<close> returns success or failure,
  for every seeding of the worklist and every policy.
\<close>

theorem domains_only_shrink:
  assumes "ac3 pick c (enforce_node_consistency (init_domains c)) arcs = Inr (ok, d2)"
    and "v \<in> set (variables c)"
  shows "\<exists>ws1 ws2. enforce_node_consistency (init_domains c) v = Some ws1 \<and> d2 v = Some ws2 \<and>
           set ws2 \<subseteq> set ws1 \<and> set ws1 \<subseteq> set (words c) \<and>
           card (set ws2) \<le> card (set ws1) \<and> card (set ws1) \<le> card (set (words c))"
proof -
  let ?d1 = "enforce_node_consistency (init_domains c)"
  let ?ws1 = "filter (\<lambda>word. length word = var_length v) (words c)"
  have ws1: "?d1 v = Some ?ws1"
    using assms(2) by (simp add: enforce_node_consistency_def init_domains_def)
  have "shrinks ?d1 d2"
    using assms(1) by (auto simp: ac3_def split: option.splits dest: ac3_loop_shrinks)
  then obtain ws2 where ws2: "d2 v = Some ws2" "set ws2 \<subseteq> set ?ws1"
    using ws1 by (fastforce simp: shrinks_def split: option.splits)
  have sub: "set ?ws1 \<subseteq> set (words c)" by auto
  have "card (set ws2) \<le> card (set ?ws1)" using ws2(2) by (simp add: card_mono)
  moreover have "card (set ?ws1) \<le> card (set (words c))" using sub by (intro card_mono) simp_all
  ultimately show ?thesis using ws1 ws2 sub by blast
qed

theorem domains_only_shrink_witness:
  "\<exists>ok d2. ac3 pop_first (cross [''CAT'', ''DOG'', ''ATOM'', ''OPEN'', ''EXIT''])
           (enforce_node_consistency (init_domains (cross [''CAT'', ''DOG'', ''ATOM'', ''OPEN'', ''EXIT''])))
           None = Inr (ok, d2) \<and>
     slot_B \<in> set (variables (cross [''CAT'', ''DOG'', ''ATOM'', ''OPEN'', ''EXIT''])) \<and>
     enforce_node_consistency (init_domains (cross [''CAT'', ''DOG'', ''ATOM'', ''OPEN'', ''EXIT''])) slot_B
       = Some [''ATOM'', ''OPEN'', ''EXIT''] \<and>
     d2 slot_B = Some [''ATOM'', ''OPEN''] \<and>
     card (set [''ATOM'', ''OPEN'']) \<le> card (set [''ATOM'', ''OPEN'', ''EXIT'']) \<and>
     card (set [''ATOM'', ''OPEN'', ''EXIT''])
       \<le> card (set (words (cross [''CAT'', ''DOG'', ''ATOM'', ''OPEN'', ''EXIT''])))"
proof -
  let ?c = "cross [''CAT'', ''DOG'', ''ATOM'', ''OPEN'', ''EXIT'']"
  have "case ac3 pop_first ?c (enforce_node_consistency (init_domains ?c)) None of
          Inl e \<Rightarrow> False
        | Inr (ok, d') \<Rightarrow> d' slot_B = Some [''ATOM'', ''OPEN'']"
    by code_simp
  then obtain ok d2 where run: "ac3 pop_first ?c (enforce_node_consistency (init_domains ?c)) None
      = Inr (ok, d2)"
    and d2: "d2 slot_B = Some [''ATOM'', ''OPEN'']"
    by (auto split: sum.splits)
  have v: "slot_B \<in> set (variables ?c)" by (simp add: cross_def)
  have d1: "enforce_node_consistency (init_domains ?c) slot_B = Some [''ATOM'', ''OPEN'', ''EXIT'']"
    by code_simp
  from domains_only_shrink[OF run v] d1 d2 run v show ?thesis by auto
qed

subsection \<open>\<open>revise\<close> on two slots that share no cell\<close>

text \<open>
  Claim C3. For two slots whose overlap table entry is \<open>None\<close>, \<open>revise\<close> should leave
  every domain unchanged and return false. The source reads \<open>overlap[0]\<close> before its test
  \<open>if overlap\<close>, so the call raises \<open>TypeError\<close> instead: here on \<open>slot_A\<close> and
  \<open>slot_C\<close>, whose entry is \<open>None\<close>.
\<close>

theorem revise_no_overlap_raises:
  "overlaps_get (three_slots [''CAT'', ''DOG'']) slot_A slot_C = Inr None \<and>
   revise (three_slots [''CAT'', ''DOG'']) (init_domains (three_slots [''CAT'', ''DOG'']))
     slot_A slot_C = Inl TypeError"
  by (simp add: revise_def overlaps_get_def three_slots_def cross_overlaps_def
      slot_A_def slot_B_def slot_C_def)

subsection \<open>A failed search leaves the assignment as it was\<close>

lemma backtrack_restores:
  shows "backtrack c d a = Inr (r, a', t) \<Longrightarrow> \<not> truthy r \<Longrightarrow> a' = a"
    and "backtrack_values c d v ws a = Inr (r, a', t) \<Longrightarrow> \<not> truthy r \<Longrightarrow>
         a' = (if ws = [] then a else AList.delete v a)"
  using backtrack_restores_dom backtrack_total by blast+

text \<open>
  Claim C10. Whenever \<open>backtrack\<close> returns the failure signal \<open>None\<close>, the assignment it
  leaves behind equals the assignment it was given: every entry it added tentatively has
  been removed again.
\<close>

theorem backtrack_failure_restores:
  "backtrack c d a = Inr (None, a', t) \<Longrightarrow> a' = a"
  using backtrack_restores(1)[of c d a None a' t] by (simp add: truthy_def)

theorem backtrack_failure_restores_witness:
  "backtrack (cross [''CAT'', ''OPEN''])
     (enforce_node_consistency (init_domains (cross [''CAT'', ''OPEN''])))
     [(slot_A, ''CAT'')]
   = Inr (None, [(slot_A, ''CAT'')], [Call, Update slot_B ''OPEN''])"
proof -
  have run: "backtrack (cross [''CAT'', ''OPEN''])
      (enforce_node_consistency (init_domains (cross [''CAT'', ''OPEN''])))
      [(slot_A, ''CAT'')]
    = Inr (None, [(slot_A, ''CAT'')], [Call, Update slot_B ''OPEN''])"
    by code_simp
  from backtrack_failure_restores[OF run] run show ?thesis by simp
qed

subsection \<open>Case analysis of \<open>backtrack\<close>\<close>

declare backtrack.simps [simp del] backtrack_values.simps [simp del]

lemma backtrack_cases [consumes 1, case_names complete stuck search]:
  assumes "backtrack c d a = Inr res"
  obtains "length (variables c) = length a" "res = (Some a, a, [Call])"
  | "length (variables c) \<noteq> length a"
    "find (\<lambda>variable. map_of a variable = None) (variables c) = None"
    "res = (None, a, [Call])"
  | v dv r a' t where "length (variables c) \<noteq> length a"
    "find (\<lambda>variable. map_of a variable = None) (variables c) = Some v"
    "d v = Some dv" "backtrack_values c d v dv a = Inr (r, a', t)"
    "res = (r, a', Call # t)"
proof (cases "length (variables c) = length a")
  case True
  then have "res = (Some a, a, [Call])" using assms by (simp add: backtrack.simps)
  then show ?thesis using True that(1) by blast
next
  case False
  show ?thesis
  proof (cases "find (\<lambda>variable. map_of a variable = None) (variables c)")
    case None
    then have "res = (None, a, [Call])" using assms False by (simp add: backtrack.simps)
    then show ?thesis using False None that(2) by blast
  next
    case (Some v)
    show ?thesis
    proof (cases "d v")
      case None
      then show ?thesis using assms False Some by (simp add: backtrack.simps)
    next
      case dv: (Some dv)
      show ?thesis
      proof (cases "backtrack_values c d v dv a")
        case (Inl e)
        then show ?thesis using assms False Some dv by (simp add: backtrack.simps)
      next
        case (Inr res')
        obtain r a' t where res': "res' = (r, a', t)" by (cases res')
        have "res = (r, a', Call # t)"
          using assms False Some dv Inr res' by (simp add: backtrack.simps)
        then show ?thesis using that(3)[OF False Some dv] Inr res' by blast
      qed
    qed
  qed
qed

lemma backtrack_values_cases [consumes 1, case_names found next_value]:
  assumes "backtrack_values c d v (w # rest) a = Inr res"
  obtains b x xa ya where "consistent c (AList.update v w a) = Inr b"
      "(if b then backtrack c d (AList.update v w a)
        else Inr (None, AList.update v w a, [])) = Inr (x, xa, ya)"
      "truthy x" "res = (x, xa, Update v w # ya)"
  | b x xa ya a3 r' a4 t' where "consistent c (AList.update v w a) = Inr b"
      "(if b then backtrack c d (AList.update v w a)
        else Inr (None, AList.update v w a, [])) = Inr (x, xa, ya)"
      "\<not> truthy x" "pop xa v = Inr a3"
      "backtrack_values c d v rest a3 = Inr (r', a4, t')"
      "res = (r', a4, Update v w # ya @ t')"
proof (cases "consistent c (AList.update v w a)")
  case (Inl e)
  then show ?thesis using assms by (simp add: backtrack_values.simps)
next
  case b: (Inr b)
  show ?thesis
  proof (cases "if b then backtrack c d (AList.update v w a)
        else Inr (None, AList.update v w a, [])")
    case (Inl e)
    then show ?thesis using assms b by (simp add: backtrack_values.simps)
  next
    case (Inr inner)
    obtain x xa ya where inner: "inner = (x, xa, ya)" by (cases inner)
    note in_eq = Inr[unfolded inner]
    show ?thesis
    proof (cases "truthy x")
      case True
      have "res = (x, xa, Update v w # ya)"
        using assms b in_eq True by (simp add: backtrack_values.simps)
      then show ?thesis using that(1)[OF b in_eq True] by blast
    next
      case False
      show ?thesis
      proof (cases "pop xa v")
        case (Inl e)
        then show ?thesis using assms b in_eq False by (simp add: backtrack_values.simps)
      next
        case a3: (Inr a3)
        show ?thesis
        proof (cases "backtrack_values c d v rest a3")
          case (Inl e)
          then show ?thesis using assms b in_eq False a3 by (simp add: backtrack_values.simps)
        next
          case (Inr res')
          obtain r' a4 t' where res': "res' = (r', a4, t')" by (cases res')
          have "res = (r', a4, Update v w # ya @ t')"
            using assms b in_eq False a3 Inr res' by (simp add: backtrack_values.simps)
          then show ?thesis using that(2)[OF b in_eq False a3 Inr[unfolded res']] by blast
        qed
      qed
    qed
  qed
qed

lemma backtrack_search_eq:
  assumes "length (variables c) \<noteq> length a"
    "find (\<lambda>variable. map_of a variable = None) (variables c) = Some v" "d v = Some dv"
  shows "backtrack c d a =
    (case backtrack_values c d v dv a of
       Inl e \<Rightarrow> Inl e
     | Inr (result, a', t) \<Rightarrow> Inr (result, a', Call # t))"
  using assms by (simp add: backtrack.simps)

lemma backtrack_values_found_eq:
  assumes "consistent c (AList.update v w a) = Inr True"
    "backtrack c d (AList.update v w a) = Inr (x, xa, ya)" "truthy x"
  shows "backtrack_values c d v (w # rest) a = Inr (x, xa, Update v w # ya)"
  using assms by (simp add: backtrack_values.simps)

lemma backtrack_values_next_eq:
  assumes "consistent c (AList.update v w a) = Inr b"
    "(if b then backtrack c d (AList.update v w a)
      else Inr (None, AList.update v w a, [])) = Inr (x, xa, ya)"
    "\<not> truthy x" "pop xa v = Inr a3"
  shows "backtrack_values c d v (w # rest) a =
    (case backtrack_values c d v rest a3 of
       Inl e \<Rightarrow> Inl e
     | Inr (r', a4, t') \<Rightarrow> Inr (r', a4, Update v w # ya @ t'))"
  using assms by (simp add: backtrack_values.simps)

lemma backtrack_Some_length:
  shows "backtrack c d a = Inr (Some r, a', t) \<Longrightarrow> length r = length (variables c)"
    and "backtrack_values c d v ws a = Inr (Some r, a', t) \<Longrightarrow> length r = length (variables c)"
proof (induction c d a and c d v ws a arbitrary: r a' t and r a' t
    rule: backtrack_backtrack_values.induct)
  case (1 c d a)
  from "1.prems" show ?case
  proof (cases rule: backtrack_cases)
    case complete
    then show ?thesis by simp
  next
    case stuck
    then show ?thesis by simp
  next
    case (search v dv r0 a0 t0)
    then have "backtrack_values c d v dv a = Inr (Some r, a', t0)" by simp
    then show ?thesis by (rule "1.IH"[OF search(1-3)])
  qed
next
  case (2 c d variable a)
  then show ?case by (simp add: backtrack_values.simps)
next
  case (3 c d variable domain rest a)
  from "3.prems" show ?case
  proof (cases rule: backtrack_values_cases)
    case (found b x xa ya)
    have bT: b using found(2,3) by (auto simp: truthy_def split: if_splits)
    have "backtrack c d (AList.update variable domain a) = Inr (Some r, a', ya)"
      using found bT by simp
    then show ?thesis by (rule "3.IH"(1)[OF found(1) bT])
  next
    case (next_value b x xa ya a3 r' a4 t')
    have "backtrack_values c d variable rest a3 = Inr (Some r, a', t')"
      using next_value(5,6) by simp
    then show ?thesis
      by (rule "3.IH"(2)[OF next_value(1,2) refl refl next_value(3,4)])
  qed
qed

lemma backtrack_log_Call:
  assumes "backtrack c d a = Inr (r, a', t)"
  shows "\<exists>t'. t = Call # t'"
  using assms by (cases rule: backtrack_cases) auto

subsection \<open>What \<open>consistent\<close> decides\<close>

lemma consistent_neighbors_step:
  assumes "map_of a y = Some w'" "w' \<noteq> []"
  shows "consistent_neighbors c a x w (y # ns) = Inr True \<longleftrightarrow>
         pair_ok c x w y w' \<and> consistent_neighbors c a x w ns = Inr True"
proof (cases "w = w'")
  case True
  then show ?thesis using assms by (simp add: pair_ok_def)
next
  case ne: False
  show ?thesis
  proof (cases "overlaps_get c x y")
    case (Inl e)
    then show ?thesis using assms ne by (simp add: pair_ok_def)
  next
    case (Inr ov)
    show ?thesis
    proof (cases ov)
      case None
      then show ?thesis using assms ne Inr by (simp add: pair_ok_def)
    next
      case (Some ij)
      obtain i j where ij: "ij = (i, j)" by (cases ij)
      show ?thesis using assms ne Inr Some ij by (auto simp: pair_ok_def)
    qed
  qed
qed

lemma consistent_neighbors_True:
  "consistent_neighbors c a x w ns = Inr True \<longleftrightarrow>
   (\<forall>y \<in> set ns. \<forall>w'. map_of a y = Some w' \<and> w' \<noteq> [] \<longrightarrow> pair_ok c x w y w')"
proof (induction ns)
  case Nil
  show ?case by simp
next
  case (Cons y ns)
  show ?case
  proof (cases "map_of a y")
    case None
    then show ?thesis using Cons.IH by simp
  next
    case (Some w')
    show ?thesis
    proof (cases "w' = []")
      case True
      then show ?thesis using Some Cons.IH by simp
    next
      case False
      show ?thesis
        unfolding consistent_neighbors_step[OF Some False] Cons.IH using Some False by auto
    qed
  qed
qed

lemma consistent_variables_True:
  "consistent_variables c a vs = Inr True \<longleftrightarrow>
   (\<forall>x \<in> set vs. \<forall>w. map_of a x = Some w \<and> w \<noteq> [] \<longrightarrow>
      length w = var_length x \<and> consistent_neighbors c a x w (neighbors c x) = Inr True)"
proof (induction vs)
  case Nil
  show ?case by simp
next
  case (Cons x vs)
  show ?case
  proof (cases "map_of a x")
    case None
    then show ?thesis using Cons.IH by simp
  next
    case (Some w)
    show ?thesis
    proof (cases "w = []")
      case True
      then show ?thesis using Some Cons.IH by simp
    next
      case False
      show ?thesis
      proof (cases "length w = var_length x")
        case ne: False
        then show ?thesis using Some False by auto
      next
        case len: True
        show ?thesis
        proof (cases "consistent_neighbors c a x w (neighbors c x)")
          case (Inl e)
          then show ?thesis using Some False len by auto
        next
          case (Inr ok)
          then show ?thesis using Some False len Cons.IH by (cases ok) auto
        qed
      qed
    qed
  qed
qed

lemma consistent_True:
  "consistent c a = Inr True \<longleftrightarrow>
   (\<forall>x \<in> set (variables c). \<forall>w. map_of a x = Some w \<and> w \<noteq> [] \<longrightarrow>
      length w = var_length x \<and>
      (\<forall>y \<in> set (neighbors c x). \<forall>w'. map_of a y = Some w' \<and> w' \<noteq> [] \<longrightarrow> pair_ok c x w y w'))"
  by (simp only: consistent_def consistent_variables_True consistent_neighbors_True)

lemma consistent_empty: "consistent c [] = Inr True"
  by (simp add: consistent_True)

lemma consistent_neighbors_total:
  assumes "\<forall>y \<in> set ns. \<forall>w'. map_of a y = Some w' \<and> w' \<noteq> [] \<longrightarrow>
             (case overlaps_get c x y of
                Inl e \<Rightarrow> False
              | Inr None \<Rightarrow> True
              | Inr (Some (i, j)) \<Rightarrow> i < length w \<and> j < length w')"
  shows "\<exists>b. consistent_neighbors c a x w ns = Inr b"
  using assms
proof (induction ns)
  case Nil
  show ?case by auto
next
  case (Cons y ns)
  then obtain b where IH: "consistent_neighbors c a x w ns = Inr b" by auto
  show ?case
  proof (cases "map_of a y")
    case None
    then show ?thesis using IH by simp
  next
    case (Some w')
    show ?thesis
    proof (cases "w' = [] \<or> w = w'")
      case True
      then show ?thesis using Some IH by auto
    next
      case False
      have ok: "case overlaps_get c x y of
                Inl e \<Rightarrow> False
              | Inr None \<Rightarrow> True
              | Inr (Some (i, j)) \<Rightarrow> i < length w \<and> j < length w'"
        using Cons.prems Some False by simp
      show ?thesis
      proof (cases "overlaps_get c x y")
        case (Inl e)
        then show ?thesis using ok by simp
      next
        case (Inr ov)
        show ?thesis
        proof (cases ov)
          case None
          then show ?thesis using Some False Inr IH by simp
        next
          case ij: (Some ij)
          obtain i j where "ij = (i, j)" by (cases ij)
          then show ?thesis using Some False Inr ij IH ok by auto
        qed
      qed
    qed
  qed
qed

lemma consistent_variables_total:
  assumes "\<forall>x \<in> set vs. \<forall>w. map_of a x = Some w \<and> w \<noteq> [] \<and> length w = var_length x \<longrightarrow>
             (\<exists>b. consistent_neighbors c a x w (neighbors c x) = Inr b)"
  shows "\<exists>b. consistent_variables c a vs = Inr b"
  using assms
proof (induction vs)
  case Nil
  show ?case by auto
next
  case (Cons x vs)
  then obtain b where IH: "consistent_variables c a vs = Inr b" by auto
  show ?case
  proof (cases "map_of a x")
    case None
    then show ?thesis using IH by simp
  next
    case (Some w)
    show ?thesis
    proof (cases "w = [] \<or> length w \<noteq> var_length x")
      case True
      then show ?thesis using Some IH by auto
    next
      case False
      then obtain b' where "consistent_neighbors c a x w (neighbors c x) = Inr b'"
        using Cons.prems Some by auto
      then show ?thesis using Some False IH by (cases b') auto
    qed
  qed
qed

lemma consistent_total:
  assumes wf: "wf_crossword c"
    and len: "\<forall>x \<in> set (variables c). \<forall>w. map_of a x = Some w \<longrightarrow> length w = var_length x"
  shows "\<exists>b. consistent c a = Inr b"
  unfolding consistent_def
proof (rule consistent_variables_total, intro ballI allI impI)
  fix x w
  assume x: "x \<in> set (variables c)"
    and w: "map_of a x = Some w \<and> w \<noteq> [] \<and> length w = var_length x"
  show "\<exists>b. consistent_neighbors c a x w (neighbors c x) = Inr b"
  proof (rule consistent_neighbors_total, intro ballI allI impI)
    fix y w'
    assume yn: "y \<in> set (neighbors c x)" and w': "map_of a y = Some w' \<and> w' \<noteq> []"
    from yn have y: "y \<in> set (variables c)" and yx: "y \<noteq> x" and ov: "overlaps c (y, x) \<noteq> None"
      by (simp_all add: neighbors_iff)
    from ov obtain j i where yx_ov: "overlaps c (y, x) = Some (j, i)" by auto
    have xy_ov: "overlaps c (x, y) = Some (i, j)"
      and j: "j < var_length y" and i: "i < var_length x"
      using wf_overlaps_Some[OF wf y x yx_ov] by simp_all
    have "length w' = var_length y" using len y w' by simp
    moreover have "overlaps_get c x y = Inr (Some (i, j))"
      using x y yx xy_ov by (simp add: overlaps_get_def)
    ultimately show "case overlaps_get c x y of
                Inl e \<Rightarrow> False
              | Inr None \<Rightarrow> True
              | Inr (Some (i, j)) \<Rightarrow> i < length w \<and> j < length w'"
      using i j w by simp
  qed
qed

lemma consistent_mono:
  assumes s: "consistent c s = Inr True"
    and sub: "\<And>x w. map_of a x = Some w \<Longrightarrow> map_of s x = Some w"
  shows "consistent c a = Inr True"
  unfolding consistent_True
proof (intro ballI allI impI)
  fix x w assume x: "x \<in> set (variables c)" and w: "map_of a x = Some w \<and> w \<noteq> []"
  have sw: "map_of s x = Some w \<and> w \<noteq> []" using w sub by simp
  from s have S: "\<forall>x \<in> set (variables c). \<forall>w. map_of s x = Some w \<and> w \<noteq> [] \<longrightarrow>
      length w = var_length x \<and>
      (\<forall>y \<in> set (neighbors c x). \<forall>w'. map_of s y = Some w' \<and> w' \<noteq> [] \<longrightarrow> pair_ok c x w y w')"
    by (simp only: consistent_True)
  from S[rule_format, OF x sw] have len: "length w = var_length x"
    and nb: "\<forall>y \<in> set (neighbors c x). \<forall>w'. map_of s y = Some w' \<and> w' \<noteq> [] \<longrightarrow> pair_ok c x w y w'"
    by simp_all
  have "\<forall>y \<in> set (neighbors c x). \<forall>w'. map_of a y = Some w' \<and> w' \<noteq> [] \<longrightarrow> pair_ok c x w y w'"
  proof (intro ballI allI impI)
    fix y w' assume y: "y \<in> set (neighbors c x)" and w': "map_of a y = Some w' \<and> w' \<noteq> []"
    have "map_of s y = Some w' \<and> w' \<noteq> []" using w' sub by simp
    then show "pair_ok c x w y w'" using nb[rule_format, OF y] by simp
  qed
  then show "length w = var_length x \<and>
      (\<forall>y \<in> set (neighbors c x). \<forall>w'. map_of a y = Some w' \<and> w' \<noteq> [] \<longrightarrow> pair_ok c x w y w')"
    using len by simp
qed

text \<open>
  Claim C8, as amended. On a well-formed puzzle, \<open>consistent\<close> returns true iff every
  slot of the puzzle that the assignment maps to a non-empty word has a word of the slot's
  length and, for every other such slot that overlaps it, the two words are not identical
  and agree at the overlap offsets. An entry whose word is the empty string is skipped by
  the source (\<open>if value:\<close>, \<open>if n_value:\<close>), as is a key that is not a slot of the puzzle.
\<close>

theorem consistent_iff:
  assumes wf: "wf_crossword c"
  shows "consistent c a = Inr True \<longleftrightarrow>
     (\<forall>x \<in> set (variables c). \<forall>w. map_of a x = Some w \<and> w \<noteq> [] \<longrightarrow>
        length w = var_length x \<and>
        (\<forall>y \<in> set (variables c). \<forall>w' i j.
           map_of a y = Some w' \<and> w' \<noteq> [] \<and> y \<noteq> x \<and> overlaps c (x, y) = Some (i, j) \<longrightarrow>
           w \<noteq> w' \<and> w ! i = w' ! j))"
  (is "?L \<longleftrightarrow> ?R")
proof
  assume L: ?L
  show ?R
  proof (intro ballI allI impI)
    fix x w assume x: "x \<in> set (variables c)" and w: "map_of a x = Some w \<and> w \<noteq> []"
    from L have L': "\<forall>x \<in> set (variables c). \<forall>w. map_of a x = Some w \<and> w \<noteq> [] \<longrightarrow>
      length w = var_length x \<and>
      (\<forall>y \<in> set (neighbors c x). \<forall>w'. map_of a y = Some w' \<and> w' \<noteq> [] \<longrightarrow> pair_ok c x w y w')"
      by (simp only: consistent_True)
    from L'[rule_format, OF x w] have len: "length w = var_length x"
      and nb: "\<forall>y \<in> set (neighbors c x). \<forall>w'. map_of a y = Some w' \<and> w' \<noteq> [] \<longrightarrow> pair_ok c x w y w'"
      by simp_all
    have "\<forall>y \<in> set (variables c). \<forall>w' i j.
           map_of a y = Some w' \<and> w' \<noteq> [] \<and> y \<noteq> x \<and> overlaps c (x, y) = Some (i, j) \<longrightarrow>
           w \<noteq> w' \<and> w ! i = w' ! j"
    proof (intro ballI allI impI)
      fix y w' i j
      assume y: "y \<in> set (variables c)"
        and h: "map_of a y = Some w' \<and> w' \<noteq> [] \<and> y \<noteq> x \<and> overlaps c (x, y) = Some (i, j)"
      have "overlaps c (y, x) = Some (j, i)" using wf_overlaps_Some(1)[OF wf x y] h by simp
      then have "y \<in> set (neighbors c x)" using y h by (simp add: neighbors_iff)
      then have "pair_ok c x w y w'" using nb[rule_format, of y w'] h by simp
      moreover have "overlaps_get c x y = Inr (Some (i, j))"
        using h x y by (auto simp: overlaps_get_def)
      ultimately show "w \<noteq> w' \<and> w ! i = w' ! j"
        by (simp add: pair_ok_def)
    qed
    then show "length w = var_length x \<and> (\<forall>y \<in> set (variables c). \<forall>w' i j.
           map_of a y = Some w' \<and> w' \<noteq> [] \<and> y \<noteq> x \<and> overlaps c (x, y) = Some (i, j) \<longrightarrow>
           w \<noteq> w' \<and> w ! i = w' ! j)"
      using len by simp
  qed
next
  assume R: ?R
  show ?L
    unfolding consistent_True
  proof (intro ballI allI impI)
    fix x w assume x: "x \<in> set (variables c)" and w: "map_of a x = Some w \<and> w \<noteq> []"
    from R[rule_format, OF x w] have len: "length w = var_length x"
      and pairs: "\<forall>y \<in> set (variables c). \<forall>w' i j.
           map_of a y = Some w' \<and> w' \<noteq> [] \<and> y \<noteq> x \<and> overlaps c (x, y) = Some (i, j) \<longrightarrow>
           w \<noteq> w' \<and> w ! i = w' ! j"
      by simp_all
    have "\<forall>y \<in> set (neighbors c x). \<forall>w'. map_of a y = Some w' \<and> w' \<noteq> [] \<longrightarrow> pair_ok c x w y w'"
    proof (intro ballI allI impI)
      fix y w' assume yn: "y \<in> set (neighbors c x)" and w': "map_of a y = Some w' \<and> w' \<noteq> []"
      from yn have y: "y \<in> set (variables c)" and yx: "y \<noteq> x" and ov: "overlaps c (y, x) \<noteq> None"
        by (simp_all add: neighbors_iff)
      from ov obtain j i where yx_ov: "overlaps c (y, x) = Some (j, i)" by auto
      have xy_ov: "overlaps c (x, y) = Some (i, j)"
        and j: "j < var_length y" and i: "i < var_length x"
        using wf_overlaps_Some[OF wf y x yx_ov] by simp_all
      have leny: "length w' = var_length y" using R[rule_format, OF y w'] by simp
      have "w \<noteq> w' \<and> w ! i = w' ! j"
        using pairs[rule_format, of y w' i j] y w' yx xy_ov by simp
      moreover have "overlaps_get c x y = Inr (Some (i, j))"
        using x y yx xy_ov by (simp add: overlaps_get_def)
      ultimately show "pair_ok c x w y w'"
        using i j len leny by (simp add: pair_ok_def)
    qed
    then show "length w = var_length x \<and>
      (\<forall>y \<in> set (neighbors c x). \<forall>w'. map_of a y = Some w' \<and> w' \<noteq> [] \<longrightarrow> pair_ok c x w y w')"
      using len by simp
  qed
qed

theorem consistent_iff_witness:
  "wf_crossword (cross [''CAT'', ''OPEN'']) \<and>
   consistent (cross [''CAT'', ''OPEN'']) [(slot_A, ''CAT''), (slot_B, ''OPEN'')] \<noteq> Inr True \<and>
   ''CAT'' ! 1 \<noteq> ''OPEN'' ! 0"
proof -
  let ?c = "cross [''CAT'', ''OPEN'']"
  let ?a = "[(slot_A, ''CAT''), (slot_B, ''OPEN'')]"
  have wf: "wf_crossword ?c" by code_simp
  have ne: "''CAT'' ! 1 \<noteq> ''OPEN'' ! 0" by simp
  have "consistent ?c ?a \<noteq> Inr True"
  proof
    assume L: "consistent ?c ?a = Inr True"
    note R = iffD1[OF consistent_iff[OF wf] L, rule_format]
    have A: "slot_A \<in> set (variables ?c)" and B: "slot_B \<in> set (variables ?c)"
      by (simp_all add: cross_def)
    have mA: "map_of ?a slot_A = Some ''CAT'' \<and> ''CAT'' \<noteq> []" by simp
    have mB: "map_of ?a slot_B = Some ''OPEN'' \<and> ''OPEN'' \<noteq> [] \<and> slot_B \<noteq> slot_A \<and>
        overlaps ?c (slot_A, slot_B) = Some (1, 0)"
      by (simp add: cross_def cross_overlaps_def slot_A_def slot_B_def)
    have "''CAT'' \<noteq> ''OPEN'' \<and> ''CAT'' ! 1 = ''OPEN'' ! 0"
      by (rule conjunct2[OF R[OF A mA], rule_format, OF B mB])
    then show False using ne by simp
  qed
  then show ?thesis using wf ne by simp
qed

text \<open>
  The claim as stated, about every assigned slot, fails: with \<open>slot_A\<close> mapped to the
  empty string, \<open>consistent\<close> returns true although the word's length is not the slot's.
\<close>

theorem consistent_skips_empty_word:
  "consistent (cross []) [(slot_A, [])] = Inr True \<and>
   map_of [(slot_A, [] :: string)] slot_A = Some [] \<and>
   length ([] :: string) \<noteq> var_length slot_A"
  by code_simp

subsection \<open>Soundness of the search\<close>

lemma valid_entries_update:
  assumes "valid_entries c a" "v \<in> set (variables c)" "w \<noteq> []"
  shows "valid_entries c (AList.update v w a)"
proof -
  have "distinct (map fst (AList.update v w a))"
    using assms(1) by (simp add: valid_entries_def distinct_update)
  moreover have "set (AList.update v w a) \<subseteq> insert (v, w) (set a)"
    by (induction a) auto
  ultimately show ?thesis
    using assms by (auto simp: valid_entries_def list_all_iff)
qed

lemma valid_entries_complete:
  assumes "valid_entries c a" "distinct (variables c)" "length (variables c) = length a"
  shows "assignment_complete c a"
proof -
  have d: "distinct (map fst a)" and sub: "fst ` set a \<subseteq> set (variables c)"
    and ne: "\<forall>(v, w) \<in> set a. w \<noteq> []"
    using assms(1) by (auto simp: valid_entries_def list_all_iff)
  have "card (fst ` set a) = length a"
    using d distinct_card[of "map fst a"] by simp
  moreover have "card (set (variables c)) = length (variables c)"
    using assms(2) by (rule distinct_card)
  ultimately have "fst ` set a = set (variables c)"
    using sub assms(3) by (intro card_subset_eq) simp_all
  then have keys: "fst ` set a = set (variables c)" .
  have "\<forall>v \<in> set (variables c). \<exists>w. map_of a v = Some w \<and> w \<noteq> []"
  proof
    fix v assume "v \<in> set (variables c)"
    then have "v \<in> fst ` set a" using keys by simp
    then obtain w where vw: "(v, w) \<in> set a" by force
    then have "map_of a v = Some w" using d by simp
    moreover have "w \<noteq> []" using ne vw by blast
    ultimately show "\<exists>w. map_of a v = Some w \<and> w \<noteq> []" by blast
  qed
  then show ?thesis
    by (auto simp: assignment_complete_def list_all_iff)
qed

lemma backtrack_sound_aux:
  shows "distinct (variables c) \<Longrightarrow> no_empty_word c d \<Longrightarrow> valid_entries c a \<Longrightarrow>
         consistent c a = Inr True \<Longrightarrow> backtrack c d a = Inr (Some r, a', t) \<Longrightarrow>
         r = a' \<and> valid_entries c r \<and> assignment_complete c r \<and> consistent c r = Inr True"
    and "distinct (variables c) \<Longrightarrow> no_empty_word c d \<Longrightarrow> valid_entries c a \<Longrightarrow>
         consistent c a = Inr True \<Longrightarrow> v \<in> set (variables c) \<Longrightarrow> v \<notin> fst ` set a \<Longrightarrow>
         list_all (\<lambda>w. w \<noteq> []) ws \<Longrightarrow>
         backtrack_values c d v ws a = Inr (Some r, a', t) \<Longrightarrow>
         r = a' \<and> valid_entries c r \<and> assignment_complete c r \<and> consistent c r = Inr True"
proof (induction c d a and c d v ws a arbitrary: r a' t and r a' t
    rule: backtrack_backtrack_values.induct)
  case (1 c d a)
  from "1.prems"(5) show ?case
  proof (cases rule: backtrack_cases)
    case complete
    then have "r = a" "a' = a" by simp_all
    then show ?thesis
      using valid_entries_complete[OF "1.prems"(3) "1.prems"(1) complete(1)] "1.prems"(3,4)
      by simp
  next
    case stuck
    then show ?thesis by simp
  next
    case (search v dv r0 a0 t0)
    have bv: "backtrack_values c d v dv a = Inr (Some r, a', t0)"
      using search(4,5) by simp
    have v: "v \<in> set (variables c)" "v \<notin> fst ` set a"
      using find_unassigned[OF search(2)] by simp_all
    have la: "list_all (\<lambda>w. w \<noteq> []) dv"
      using "1.prems"(2) v(1) search(3) by (force simp: no_empty_word_def list_all_iff)
    show ?thesis
      by (rule "1.IH"[OF search(1-3) "1.prems"(1-4) v la bv])
  qed
next
  case (2 c d variable a)
  then show ?case by (simp add: backtrack_values.simps)
next
  case (3 c d variable domain rest a)
  let ?a1 = "AList.update variable domain a"
  have dom_ne: "domain \<noteq> []" and rest_ne: "list_all (\<lambda>w. w \<noteq> []) rest"
    using "3.prems"(7) by simp_all
  have va1: "valid_entries c ?a1"
    using valid_entries_update[OF "3.prems"(3) "3.prems"(5) dom_ne] .
  from "3.prems"(8) show ?case
  proof (cases rule: backtrack_values_cases)
    case (found b x xa ya)
    have bT: b using found(2,3) by (auto simp: truthy_def split: if_splits)
    have "backtrack c d ?a1 = Inr (Some r, a', ya)" using found bT by simp
    moreover have "consistent c ?a1 = Inr True" using found(1) bT by simp
    ultimately show ?thesis
      using "3.IH"(1)[OF found(1) bT "3.prems"(1,2) va1] by blast
  next
    case (next_value b x xa ya a3 r' a4 t')
    have xa: "xa = ?a1"
    proof (cases b)
      case True
      then show ?thesis
        using backtrack_restores(1)[of c d ?a1 x xa ya] next_value(2,3) by simp
    next
      case False
      then show ?thesis using next_value(2) by simp
    qed
    have pop: "pop xa variable = Inr a"
      unfolding xa pop_update using "3.prems"(6) by simp
    then have a3: "a3 = a" using next_value(4) by simp
    have rest: "backtrack_values c d variable rest a = Inr (Some r, a', t')"
      using next_value(5,6) a3 by simp
    show ?thesis
      using "3.IH"(2)[OF next_value(1,2) refl refl next_value(3) pop "3.prems"(1-6) rest_ne rest] .
  qed
qed




subsection \<open>Completeness of the search\<close>

lemma set_update_subset: "set (AList.update v w a) \<subseteq> insert (v, w) (set a)"
  by (induction a) auto

lemma fitting_entries_update:
  assumes "fitting_entries c a" "v \<in> set (variables c)" "length w = var_length v"
  shows "fitting_entries c (AList.update v w a)"
proof -
  have "distinct (map fst (AList.update v w a))"
    using assms(1) by (simp add: fitting_entries_def distinct_update)
  then show ?thesis
    using assms set_update_subset[of v w a] by (auto simp: fitting_entries_def list_all_iff)
qed

lemma fitting_entries_lengths:
  assumes "fitting_entries c a" "map_of a x = Some w"
  shows "length w = var_length x" "x \<in> set (variables c)"
proof -
  have "(x, w) \<in> set a" using assms(2) by (rule map_of_SomeD)
  then show "length w = var_length x" "x \<in> set (variables c)"
    using assms(1) by (auto simp: fitting_entries_def list_all_iff)
qed

lemma agrees_update:
  assumes "agrees a s" "map_of s v = Some w"
  shows "agrees (AList.update v w a) s"
  using assms set_update_subset[of v w a] by (auto simp: agrees_def list_all_iff)

lemma agrees_lookup:
  assumes "agrees a s" "map_of a x = Some w"
  shows "map_of s x = Some w"
proof -
  have "(x, w) \<in> set a" using assms(2) by (rule map_of_SomeD)
  then show ?thesis using assms(1) by (auto simp: agrees_def list_all_iff)
qed

lemma find_None_complete:
  assumes fit: "fitting_entries c a" and dist: "distinct (variables c)"
    and none: "find (\<lambda>variable. map_of a variable = None) (variables c) = None"
  shows "length (variables c) = length a"
proof -
  have d: "distinct (map fst a)" and sub: "fst ` set a \<subseteq> set (variables c)"
    using fit by (auto simp: fitting_entries_def list_all_iff)
  have "\<forall>v \<in> set (variables c). map_of a v \<noteq> None"
    using none by (simp add: find_None_iff)
  then have "set (variables c) \<subseteq> fst ` set a"
    by (auto simp: map_of_eq_None_iff)
  then have "fst ` set a = set (variables c)" using sub by blast
  then have "card (fst ` set a) = card (set (variables c))" by simp
  moreover have "card (fst ` set a) = length a"
    using d distinct_card[of "map fst a"] by simp
  moreover have "card (set (variables c)) = length (variables c)"
    using dist by (rule distinct_card)
  ultimately show ?thesis by simp
qed

lemma node_consistent_lookup:
  assumes "node_consistent c d" "v \<in> set (variables c)"
  obtains dv where "d v = Some dv" "list_all (\<lambda>w. length w = var_length v) dv"
  using assms by (auto simp: node_consistent_def list_all_iff split: option.splits)

lemma solution_lookup:
  assumes "solution c d s" "v \<in> set (variables c)" "d v = Some dv"
  shows "\<exists>w \<in> set dv. map_of s v = Some w"
  using assms by (auto simp: solution_def list_all_iff split: option.splits)

lemma backtrack_complete_aux:
  shows "wf_crossword c \<Longrightarrow> node_consistent c d \<Longrightarrow> fitting_entries c a \<Longrightarrow>
         (\<exists>res. backtrack c d a = Inr res) \<and>
         (\<forall>s. solution c d s \<and> agrees a s \<longrightarrow> (\<exists>r a' t. backtrack c d a = Inr (Some r, a', t)))"
    and "wf_crossword c \<Longrightarrow> node_consistent c d \<Longrightarrow> fitting_entries c a \<Longrightarrow>
         v \<in> set (variables c) \<Longrightarrow> v \<notin> fst ` set a \<Longrightarrow>
         list_all (\<lambda>w. length w = var_length v) ws \<Longrightarrow>
         (\<exists>res. backtrack_values c d v ws a = Inr res) \<and>
         (\<forall>s. solution c d s \<and> agrees a s \<and> (\<exists>w \<in> set ws. map_of s v = Some w) \<longrightarrow>
              (\<exists>r a' t. backtrack_values c d v ws a = Inr (Some r, a', t)))"
proof (induction c d a and c d v ws a rule: backtrack_backtrack_values.induct)
  case (1 c d a)
  note wf = "1.prems"(1) and nc = "1.prems"(2) and fit = "1.prems"(3)
  show ?case
  proof (cases "length (variables c) = length a")
    case True
    then have "backtrack c d a = Inr (Some a, a, [Call])" by (simp add: backtrack.simps)
    then show ?thesis by simp
  next
    case False
    show ?thesis
    proof (cases "find (\<lambda>variable. map_of a variable = None) (variables c)")
      case None
      have "length (variables c) = length a"
        using find_None_complete[OF fit wf_distinct[OF wf] None] .
      then show ?thesis using False by simp
    next
      case (Some v)
      have v: "v \<in> set (variables c)" "v \<notin> fst ` set a"
        using find_unassigned[OF Some] by simp_all
      from node_consistent_lookup[OF nc v(1)] obtain dv where
        dv: "d v = Some dv" and la: "list_all (\<lambda>w. length w = var_length v) dv" .
      note IH = "1.IH"[OF False Some dv wf nc fit v la]
      note eq = backtrack_search_eq[of c a v d dv, OF False Some dv]
      from IH obtain res where res: "backtrack_values c d v dv a = Inr res" by blast
      obtain r0 a0 t0 where "res = (r0, a0, t0)" by (cases res)
      then have A: "\<exists>res. backtrack c d a = Inr res" using eq res by simp
      have B: "\<forall>s. solution c d s \<and> agrees a s \<longrightarrow> (\<exists>r a' t. backtrack c d a = Inr (Some r, a', t))"
      proof (intro allI impI)
        fix s assume s: "solution c d s \<and> agrees a s"
        then have "\<exists>w \<in> set dv. map_of s v = Some w"
          using solution_lookup[of c d s v dv] v(1) dv by simp
        then obtain r a' t where "backtrack_values c d v dv a = Inr (Some r, a', t)"
          using IH s by blast
        then show "\<exists>r a' t. backtrack c d a = Inr (Some r, a', t)" using eq by simp
      qed
      show ?thesis using A B by simp
    qed
  qed
next
  case (2 c d variable a)
  show ?case by (simp add: backtrack_values.simps)
next
  case (3 c d variable domain rest a)
  note wf = "3.prems"(1) and nc = "3.prems"(2) and fit = "3.prems"(3)
    and v = "3.prems"(4) and vnot = "3.prems"(5)
  let ?a1 = "AList.update variable domain a"
  have len: "length domain = var_length variable"
    and la_rest: "list_all (\<lambda>w. length w = var_length variable) rest"
    using "3.prems"(6) by simp_all
  have fit1: "fitting_entries c ?a1" using fitting_entries_update[OF fit v len] .
  have "\<forall>x \<in> set (variables c). \<forall>w. map_of ?a1 x = Some w \<longrightarrow> length w = var_length x"
    using fitting_entries_lengths(1)[OF fit1] by blast
  from consistent_total[OF wf this] obtain b where b: "consistent c ?a1 = Inr b" by blast
  have "\<exists>inner. (if b then backtrack c d ?a1 else Inr (None, ?a1, [])) = Inr inner"
  proof (cases b)
    case True
    then show ?thesis using "3.IH"(1)[OF b True wf nc fit1] by simp
  next
    case False
    then show ?thesis by simp
  qed
  then obtain x xa ya where
    inner: "(if b then backtrack c d ?a1 else Inr (None, ?a1, [])) = Inr (x, xa, ya)"
    by (metis prod_cases3)
  show ?case
  proof (cases "truthy x")
    case True
    have bT: b using inner True by (auto simp: truthy_def split: if_splits)
    have "backtrack_values c d variable (domain # rest) a = Inr (x, xa, Update variable domain # ya)"
      using backtrack_values_found_eq[of c variable domain a d x xa ya rest] b bT inner True
      by simp
    moreover obtain r where "x = Some r" using True by (auto simp: truthy_def split: option.splits)
    ultimately show ?thesis by simp
  next
    case False
    have xa: "xa = ?a1"
    proof (cases b)
      case True
      then show ?thesis
        using backtrack_restores(1)[of c d ?a1 x xa ya] inner False by simp
    next
      case False
      then show ?thesis using inner by simp
    qed
    have pop: "pop xa variable = Inr a"
      unfolding xa pop_update using vnot by simp
    note IH = "3.IH"(2)[OF b inner refl refl False pop wf nc fit v vnot la_rest]
    note eq = backtrack_values_next_eq[of c variable domain a b d x xa ya a rest, OF b inner False pop]
    from IH obtain res where res: "backtrack_values c d variable rest a = Inr res" by blast
    obtain r0 a0 t0 where "res = (r0, a0, t0)" by (cases res)
    then have A: "\<exists>res. backtrack_values c d variable (domain # rest) a = Inr res"
      using eq res by simp
    have B: "\<forall>s. solution c d s \<and> agrees a s \<and> (\<exists>w \<in> set (domain # rest). map_of s variable = Some w) \<longrightarrow>
              (\<exists>r a' t. backtrack_values c d variable (domain # rest) a = Inr (Some r, a', t))"
    proof (intro allI impI)
      fix s
      assume s: "solution c d s \<and> agrees a s \<and> (\<exists>w \<in> set (domain # rest). map_of s variable = Some w)"
      have "map_of s variable \<noteq> Some domain"
      proof
        assume sv: "map_of s variable = Some domain"
        have ag1: "agrees ?a1 s" using agrees_update[OF _ sv] s by simp
        have "consistent c s = Inr True" using s by (simp add: solution_def)
        then have "consistent c ?a1 = Inr True"
          using agrees_lookup[OF ag1] by (rule consistent_mono)
        then have bT: b using b by simp
        from "3.IH"(1)[OF b bT wf nc fit1] s ag1 obtain r a' t where
          "backtrack c d ?a1 = Inr (Some r, a', t)" by blast
        then have x: "x = Some r" and "length r = length (variables c)"
          using inner bT backtrack_Some_length(1)[of c d ?a1 r a' t] by simp_all
        then have "r \<noteq> []" using v by auto
        then show False using False x by (simp add: truthy_def)
      qed
      then have "\<exists>w \<in> set rest. map_of s variable = Some w" using s by auto
      then obtain r a' t where "backtrack_values c d variable rest a = Inr (Some r, a', t)"
        using IH s by blast
      then show "\<exists>r a' t. backtrack_values c d variable (domain # rest) a = Inr (Some r, a', t)"
        using eq by simp
    qed
    show ?thesis using A B by simp
  qed
qed

lemma node_consistent_enforce:
  "node_consistent c (enforce_node_consistency (init_domains c))"
  by (simp add: node_consistent_def enforce_node_consistency_def init_domains_def list_all_iff)

lemma node_consistent_shrinks:
  assumes "node_consistent c d" "shrinks d d'"
  shows "node_consistent c d'"
  unfolding node_consistent_def list_all_iff
proof
  fix v assume v: "v \<in> set (variables c)"
  from node_consistent_lookup[OF assms(1) v] obtain dv where
    dv: "d v = Some dv" "list_all (\<lambda>w. length w = var_length v) dv" .
  from assms(2) dv(1) obtain dv' where "d' v = Some dv'" "set dv' \<subseteq> set dv"
    by (fastforce simp: shrinks_def split: option.splits)
  then show "case d' v of None \<Rightarrow> False | Some ws \<Rightarrow> \<forall>w \<in> set ws. length w = var_length v"
    using dv(2) by (auto simp: list_all_iff)
qed

lemma ac3_node_consistent:
  assumes "ac3 pick c (enforce_node_consistency (init_domains c)) arcs = Inr (ok, d)"
  shows "node_consistent c d"
proof -
  have "shrinks (enforce_node_consistency (init_domains c)) d"
    using assms by (auto simp: ac3_def split: option.splits dest: ac3_loop_shrinks)
  then show ?thesis using node_consistent_enforce node_consistent_shrinks by blast
qed

lemma solution_no_empty_word:
  assumes nc: "node_consistent c d" and s: "solution c d s"
  shows "no_empty_word c d"
  unfolding no_empty_word_def list_all_iff
proof
  fix v assume v: "v \<in> set (variables c)"
  from node_consistent_lookup[OF nc v] obtain dv where
    dv: "d v = Some dv" "list_all (\<lambda>w. length w = var_length v) dv" .
  from s v obtain w0 where w0: "map_of s v = Some w0" "w0 \<noteq> []"
    by (auto simp: solution_def assignment_complete_def list_all_iff split: option.splits)
  have "consistent c s = Inr True" using s by (simp add: solution_def)
  then have S: "\<forall>x \<in> set (variables c). \<forall>w. map_of s x = Some w \<and> w \<noteq> [] \<longrightarrow>
      length w = var_length x \<and>
      (\<forall>y \<in> set (neighbors c x). \<forall>w'. map_of s y = Some w' \<and> w' \<noteq> [] \<longrightarrow> pair_ok c x w y w')"
    by (simp only: consistent_True)
  have "length w0 = var_length v" using S[rule_format, OF v, of w0] w0 by simp
  then have "0 < var_length v" using w0(2) by (cases w0) auto
  then have "\<forall>w \<in> set dv. w \<noteq> []" using dv(2) by (auto simp: list_all_iff)
  then show "case d v of None \<Rightarrow> True | Some ws \<Rightarrow> \<forall>w \<in> set ws. w \<noteq> []"
    using dv(1) by simp
qed

lemma backtrack_complete_general:
  assumes wf: "wf_crossword c" and nc: "node_consistent c d" and s: "solution c d s"
  shows "\<exists>r t. backtrack c d [] = Inr (Some r, r, t) \<and>
           assignment_complete c r \<and> consistent c r = Inr True"
proof -
  have fit: "fitting_entries c []" by (simp add: fitting_entries_def)
  have "agrees [] s" by (simp add: agrees_def)
  then obtain r a' t where run: "backtrack c d [] = Inr (Some r, a', t)"
    using backtrack_complete_aux(1)[OF wf nc fit] s by blast
  have "r = a' \<and> valid_entries c r \<and> assignment_complete c r \<and> consistent c r = Inr True"
    by (rule backtrack_sound_aux(1)[OF wf_distinct[OF wf] solution_no_empty_word[OF nc s]
          _ consistent_empty run]) (simp add: valid_entries_def)
  then show ?thesis using run by blast
qed

text \<open>
  Claim C5. On a well-formed puzzle, if the domains left by node consistency and \<open>ac3\<close>
  admit a complete, consistent assignment with every slot's word drawn from its domain,
  then \<open>backtrack\<close> started from the empty assignment returns: it raises nothing, and its
  result is an assignment that is complete and consistent.
\<close>

theorem backtrack_complete:
  assumes "wf_crossword c"
    and "ac3 pick c (enforce_node_consistency (init_domains c)) arcs = Inr (ok, d)"
    and "solution c d s"
  shows "\<exists>r t. backtrack c d [] = Inr (Some r, r, t) \<and>
           assignment_complete c r \<and> consistent c r = Inr True"
  using backtrack_complete_general[OF assms(1) ac3_node_consistent[OF assms(2)] assms(3)] .

theorem backtrack_complete_witness:
  "wf_crossword (cross [''CAT'', ''DOG'', ''ATOM'', ''OPEN'', ''EXIT'']) \<and>
   (\<exists>ok d r t.
      ac3 pop_first (cross [''CAT'', ''DOG'', ''ATOM'', ''OPEN'', ''EXIT''])
        (enforce_node_consistency (init_domains (cross [''CAT'', ''DOG'', ''ATOM'', ''OPEN'', ''EXIT''])))
        None = Inr (ok, d) \<and>
      solution (cross [''CAT'', ''DOG'', ''ATOM'', ''OPEN'', ''EXIT'']) d
        [(slot_B, ''OPEN''), (slot_A, ''DOG'')] \<and>
      backtrack (cross [''CAT'', ''DOG'', ''ATOM'', ''OPEN'', ''EXIT'']) d [] = Inr (Some r, r, t) \<and>
      assignment_complete (cross [''CAT'', ''DOG'', ''ATOM'', ''OPEN'', ''EXIT'']) r \<and>
      consistent (cross [''CAT'', ''DOG'', ''ATOM'', ''OPEN'', ''EXIT'']) r = Inr True)"
proof -
  let ?c = "cross [''CAT'', ''DOG'', ''ATOM'', ''OPEN'', ''EXIT'']"
  have wf: "wf_crossword ?c" by code_simp
  have "case ac3 pop_first ?c (enforce_node_consistency (init_domains ?c)) None of
          Inl e \<Rightarrow> False
        | Inr (ok, d) \<Rightarrow> solution ?c d [(slot_B, ''OPEN''), (slot_A, ''DOG'')]"
    by code_simp
  then obtain ok d where
    ac3: "ac3 pop_first ?c (enforce_node_consistency (init_domains ?c)) None = Inr (ok, d)"
    and sol: "solution ?c d [(slot_B, ''OPEN''), (slot_A, ''DOG'')]"
    by (auto split: sum.splits)
  from backtrack_complete[OF wf ac3 sol] obtain r t where
    res: "backtrack ?c d [] = Inr (Some r, r, t)"
      "assignment_complete ?c r" "consistent ?c r = Inr True"
    by blast
  have "\<exists>ok d r t.
      ac3 pop_first ?c (enforce_node_consistency (init_domains ?c)) None = Inr (ok, d) \<and>
      solution ?c d [(slot_B, ''OPEN''), (slot_A, ''DOG'')] \<and>
      backtrack ?c d [] = Inr (Some r, r, t) \<and>
      assignment_complete ?c r \<and> consistent ?c r = Inr True"
    by (intro exI[of _ ok] exI[of _ d] exI[of _ r] exI[of _ t] conjI) (fact ac3 sol res)+
  then show ?thesis using wf by (rule conjI[rotated])
qed

subsection \<open>\<open>solve\<close> after a failed \<open>ac3\<close>\<close>

lemma backtrack_empty_domain:
  shows "distinct (variables c) \<Longrightarrow> X \<in> set (variables c) \<Longrightarrow> d X = Some [] \<Longrightarrow>
         distinct (map fst a) \<Longrightarrow> fst ` set a \<subseteq> set (variables c) \<Longrightarrow> X \<notin> fst ` set a \<Longrightarrow>
         backtrack c d a = Inr (r, a', t) \<Longrightarrow> r = None"
    and "distinct (variables c) \<Longrightarrow> X \<in> set (variables c) \<Longrightarrow> d X = Some [] \<Longrightarrow>
         distinct (map fst a) \<Longrightarrow> fst ` set a \<subseteq> set (variables c) \<Longrightarrow> X \<notin> fst ` set a \<Longrightarrow>
         v \<in> set (variables c) \<Longrightarrow> v \<notin> fst ` set a \<Longrightarrow> (v = X \<longrightarrow> ws = []) \<Longrightarrow>
         backtrack_values c d v ws a = Inr (r, a', t) \<Longrightarrow> r = None"
proof (induction c d a and c d v ws a arbitrary: r a' t and r a' t
    rule: backtrack_backtrack_values.induct)
  case (1 c d a)
  from "1.prems"(7) show ?case
  proof (cases rule: backtrack_cases)
    case complete
    have "card (fst ` set a) = length a"
      using "1.prems"(4) distinct_card[of "map fst a"] by simp
    moreover have "card (set (variables c)) = length (variables c)"
      using "1.prems"(1) by (rule distinct_card)
    moreover have "fst ` set a \<subset> set (variables c)" using "1.prems"(2,5,6) by blast
    then have "card (fst ` set a) < card (set (variables c))"
      by (intro psubset_card_mono) simp_all
    ultimately show ?thesis using complete(1) by simp
  next
    case stuck
    then show ?thesis by simp
  next
    case (search v dv r0 a0 t0)
    have v: "v \<in> set (variables c)" "v \<notin> fst ` set a"
      using find_unassigned[OF search(2)] by simp_all
    have vX: "v = X \<longrightarrow> dv = []" using search(3) "1.prems"(3) by auto
    have "backtrack_values c d v dv a = Inr (r, a', t0)" using search(4,5) by simp
    then show ?thesis
      by (rule "1.IH"[OF search(1-3) "1.prems"(1-6) v vX])
  qed
next
  case (2 c d variable a)
  then show ?case by (simp add: backtrack_values.simps)
next
  case (3 c d variable domain rest a)
  let ?a1 = "AList.update variable domain a"
  have vX: "variable \<noteq> X" using "3.prems"(9) by auto
  have d1: "distinct (map fst ?a1)" using "3.prems"(4) by (simp add: distinct_update)
  have k1: "fst ` set ?a1 \<subseteq> set (variables c)"
    using "3.prems"(5,7) by (simp add: dom_update)
  have X1: "X \<notin> fst ` set ?a1" using "3.prems"(6) vX by (simp add: dom_update)
  from "3.prems"(10) show ?case
  proof (cases rule: backtrack_values_cases)
    case (found b x xa ya)
    have bT: b using found(2,3) by (auto simp: truthy_def split: if_splits)
    have "backtrack c d ?a1 = Inr (x, xa, ya)" using found(2) bT by simp
    then have "x = None"
      by (rule "3.IH"(1)[OF found(1) bT "3.prems"(1-3) d1 k1 X1])
    then show ?thesis using found(3) by (simp add: truthy_def)
  next
    case (next_value b x xa ya a3 r' a4 t')
    have xa: "xa = ?a1"
    proof (cases b)
      case True
      then show ?thesis
        using backtrack_restores(1)[of c d ?a1 x xa ya] next_value(2,3) by simp
    next
      case False
      then show ?thesis using next_value(2) by simp
    qed
    have pop: "pop xa variable = Inr a"
      unfolding xa pop_update using "3.prems"(8) by simp
    then have a3: "a3 = a" using next_value(4) by simp
    have rest: "backtrack_values c d variable rest a = Inr (r, a', t')"
      using next_value(5,6) a3 by simp
    have vX': "variable = X \<longrightarrow> rest = []" using vX by simp
    show ?thesis
      by (rule "3.IH"(2)[OF next_value(1,2) refl refl next_value(3) pop "3.prems"(1-8) vX' rest])
  qed
qed

text \<open>
  Claim C1, as amended. On a well-formed puzzle, when \<open>ac3\<close> returns failure, \<open>solve\<close>
  returns the no-solution signal \<open>None\<close>. It does so after invoking \<open>backtrack\<close>: \<open>solve\<close>
  never reads the result of \<open>ac3\<close>, and the search fails because a domain is empty. The
  log of the search starts with the entry into \<open>backtrack\<close>.
\<close>

theorem solve_after_failed_ac3:
  assumes wf: "wf_crossword c"
    and ac3: "ac3 pick c (enforce_node_consistency (init_domains c)) None = Inr (False, d)"
  shows "\<exists>t. solve pick c = Inr (None, Call # t)"
proof -
  have nc: "node_consistent c d" using ac3 by (rule ac3_node_consistent)
  have "ac3_loop pick c (all_arcs c) (enforce_node_consistency (init_domains c)) = Inr (False, d)"
    using ac3 by (simp add: ac3_def)
  from ac3_loop_failure[OF this] obtain X where X: "X \<in> set (variables c)" "d X = Some []"
    by blast
  have fit: "fitting_entries c []" by (simp add: fitting_entries_def)
  from backtrack_complete_aux(1)[OF wf nc fit] obtain res where "backtrack c d [] = Inr res"
    by blast
  then obtain r a' t where run: "backtrack c d [] = Inr (r, a', t)" by (cases res) auto
  have "r = None"
    by (rule backtrack_empty_domain(1)[OF wf_distinct[OF wf] X _ _ _ run]) simp_all
  moreover obtain t' where "t = Call # t'" using backtrack_log_Call[OF run] by blast
  ultimately show ?thesis using ac3 run by (simp add: solve_def)
qed

theorem solve_after_failed_ac3_witness:
  "wf_crossword (cross [''CAT'', ''OPEN'']) \<and>
   (\<exists>d t. ac3 pop_first (cross [''CAT'', ''OPEN''])
            (enforce_node_consistency (init_domains (cross [''CAT'', ''OPEN'']))) None
          = Inr (False, d) \<and>
        solve pop_first (cross [''CAT'', ''OPEN'']) = Inr (None, Call # t))"
proof -
  let ?c = "cross [''CAT'', ''OPEN'']"
  have wf: "wf_crossword ?c" by code_simp
  have "(case ac3 pop_first ?c (enforce_node_consistency (init_domains ?c)) None of
      Inl e \<Rightarrow> None
    | Inr (ok, d) \<Rightarrow> Some ok) = Some False"
    by code_simp
  then obtain d where ac3: "ac3 pop_first ?c (enforce_node_consistency (init_domains ?c)) None
      = Inr (False, d)"
    by (auto split: sum.splits)
  from solve_after_failed_ac3[OF wf ac3] wf ac3 show ?thesis by blast
qed

text \<open>
  The claim as stated, that no search is performed, fails: on a puzzle where \<open>ac3\<close>
  returns failure, the log of \<open>solve\<close> holds a call of \<open>backtrack\<close>.
\<close>

theorem solve_searches_after_failed_ac3:
  "(case ac3 pop_first (cross [''CAT'', ''OPEN''])
           (enforce_node_consistency (init_domains (cross [''CAT'', ''OPEN'']))) None of
      Inl e \<Rightarrow> None
    | Inr (ok, d) \<Rightarrow> Some ok) = Some False \<and>
   solve pop_first (cross [''CAT'', ''OPEN'']) = Inr (None, [Call])"
  by code_simp

subsection \<open>The order of \<open>order_domain_values\<close>\<close>

lemma count_conflicts_eq:
  "count_conflicts i j w dn = Inr n \<Longrightarrow> n = length (filter (\<lambda>w'. w ! i \<noteq> w' ! j) dn)"
proof (induction dn arbitrary: n)
  case Nil
  then show ?case by simp
next
  case (Cons w' dn)
  from Cons.prems obtain m where m: "count_conflicts i j w dn = Inr m"
    and n: "n = (if w ! i \<noteq> w' ! j then Suc m else m)"
    by (auto split: if_splits sum.splits)
  show ?case using Cons.IH[OF m] n by simp
qed

lemma count_neighbors_eq:
  "count_neighbors c d a var w ns = Inr n \<Longrightarrow>
   n = sum_list
       (map (\<lambda>n. length (filter (disagree c var n w) (case d n of None \<Rightarrow> [] | Some dn \<Rightarrow> dn)))
         (filter (\<lambda>n. map_of a n = None) ns))"
proof (induction ns arbitrary: n)
  case Nil
  then show ?case by simp
next
  case (Cons y ns)
  show ?case
  proof (cases "map_of a y = None")
    case False
    then obtain wy where wy: "map_of a y = Some wy" by auto
    then have "count_neighbors c d a var w ns = Inr n" using Cons.prems by simp
    from Cons.IH[OF this] show ?thesis using wy by simp
  next
    case True
    from Cons.prems True obtain i j dn k m where
      ov: "overlaps_get c var y = Inr (Some (i, j))" and dn: "d y = Some dn"
      and k: "count_conflicts i j w dn = Inr k"
      and m: "count_neighbors c d a var w ns = Inr m" and n: "n = k + m"
      by (auto split: sum.splits option.splits)
    have "overlaps c (var, y) = Some (i, j)"
      using ov by (auto simp: overlaps_get_def split: if_splits)
    then have "disagree c var y w = (\<lambda>w'. w ! i \<noteq> w' ! j)"
      by (auto simp: disagree_def)
    then show ?thesis
      using True dn n count_conflicts_eq[OF k] Cons.IH[OF m] by simp
  qed
qed

lemma count_values_eq:
  "count_values c d a var ws = Inr order_values \<Longrightarrow>
   order_values = map (\<lambda>w. (w, elimination_count c d a var w)) ws"
proof (induction ws arbitrary: order_values)
  case Nil
  then show ?case by simp
next
  case (Cons w ws)
  from Cons.prems obtain n rest where
    n: "count_neighbors c d a var w (neighbors c var) = Inr n"
    and rest: "count_values c d a var ws = Inr rest" and ov: "order_values = (w, n) # rest"
    by (auto split: sum.splits)
  have "n = elimination_count c d a var w"
    using count_neighbors_eq[OF n] by (simp add: elimination_count_def)
  then show ?case using Cons.IH[OF rest] ov by simp
qed

text \<open>
  Claim C9. For every slot and every assignment, the list that \<open>order_domain_values\<close>
  returns holds exactly the words of the slot's domain, in ascending order of their
  elimination counts, where the count of a word is the number of pairs of an unassigned
  neighbor and a word of that neighbor's domain that disagree with it at the overlap
  offsets.
\<close>

theorem order_domain_values_sorted:
  assumes "order_domain_values c d var a = Inr out"
  shows "sorted (map (elimination_count c d a var) out) \<and>
         (\<exists>dv. d var = Some dv \<and> mset out = mset dv)"
proof -
  from assms obtain dv items where dv: "d var = Some dv"
    and items: "count_values c d a var dv = Inr items"
    and out: "out = map fst (sort_key snd items)"
    by (auto simp: order_domain_values_def split: option.splits sum.splits)
  have items_eq: "items = map (\<lambda>w. (w, elimination_count c d a var w)) dv"
    using count_values_eq[OF items] .
  have "\<forall>p \<in> set (sort_key snd items). elimination_count c d a var (fst p) = snd p"
    using items_eq by auto
  then have "map (elimination_count c d a var) out = map snd (sort_key snd items)"
    unfolding out by simp
  then have "sorted (map (elimination_count c d a var) out)" by simp
  moreover have "mset out = mset dv"
  proof -
    have "mset out = image_mset fst (mset (sort_key snd items))" unfolding out by simp
    also have "\<dots> = image_mset fst (mset items)" by simp
    also have "\<dots> = mset (map fst items)" by simp
    also have "map fst items = dv" unfolding items_eq by (simp add: comp_def)
    finally show ?thesis .
  qed
  ultimately show ?thesis using dv by simp
qed

theorem order_domain_values_sorted_witness:
  "order_domain_values (cross [''CAT'', ''DOG'', ''COT'', ''TOP'', ''ATOM'', ''OPEN'', ''OVER''])
     (enforce_node_consistency
        (init_domains (cross [''CAT'', ''DOG'', ''COT'', ''TOP'', ''ATOM'', ''OPEN'', ''OVER''])))
     slot_A [] = Inr [''DOG'', ''COT'', ''TOP'', ''CAT''] \<and>
   sorted (map (elimination_count (cross [''CAT'', ''DOG'', ''COT'', ''TOP'', ''ATOM'', ''OPEN'', ''OVER''])
      (enforce_node_consistency
        (init_domains (cross [''CAT'', ''DOG'', ''COT'', ''TOP'', ''ATOM'', ''OPEN'', ''OVER''])))
      [] slot_A) [''DOG'', ''COT'', ''TOP'', ''CAT'']) \<and>
   map (elimination_count (cross [''CAT'', ''DOG'', ''COT'', ''TOP'', ''ATOM'', ''OPEN'', ''OVER''])
      (enforce_node_consistency
        (init_domains (cross [''CAT'', ''DOG'', ''COT'', ''TOP'', ''ATOM'', ''OPEN'', ''OVER''])))
      [] slot_A) [''DOG'', ''COT'', ''TOP'', ''CAT''] = [1, 1, 1, 2]"
proof -
  let ?c = "cross [''CAT'', ''DOG'', ''COT'', ''TOP'', ''ATOM'', ''OPEN'', ''OVER'']"
  let ?d = "enforce_node_consistency (init_domains ?c)"
  have run: "order_domain_values ?c ?d slot_A [] = Inr [''DOG'', ''COT'', ''TOP'', ''CAT'']"
    by code_simp
  have counts: "map (elimination_count ?c ?d [] slot_A) [''DOG'', ''COT'', ''TOP'', ''CAT'']
      = [1, 1, 1, 2]"
    by code_simp
  from order_domain_values_sorted[OF run] have
    "sorted (map (elimination_count ?c ?d [] slot_A) [''DOG'', ''COT'', ''TOP'', ''CAT''])"
    by (rule conjunct1)
  then show ?thesis using run counts by (intro conjI)
qed

subsection \<open>The order of the search\<close>










end
